theory Spec2Isabelle
  imports Main "HOL-Library.Multiset" "HOL-Library.Word"
begin

section \<open>Integer arrays\<close>

text \<open>
  \<open>Arrayi\<close> is an Eigen array of \<open>int\<close> with one component per spatial dimension (two
  or three, fixed at build time). It is modelled as a list of integers whose length is the
  number of dimensions. The components are 32-bit signed: every arithmetic result is
  brought back into range by \<open>int32\<close> (two's complement wrap-around).
\<close>

type_synonym Arrayi = "int list"

definition int32 :: "int \<Rightarrow> int" where
  "int32 x = (x + 2 ^ 31) mod 2 ^ 32 - 2 ^ 31"

definition Arrayi_Zero :: "nat \<Rightarrow> Arrayi" where
  "Arrayi_Zero n = replicate n 0"

definition Arrayi_Ones :: "nat \<Rightarrow> Arrayi" where
  "Arrayi_Ones n = replicate n 1"

definition Arrayi_scale :: "int \<Rightarrow> Arrayi \<Rightarrow> Arrayi" where
  "Arrayi_scale k a = map (\<lambda>x. int32 (k * x)) a"

definition Arrayi_minus :: "Arrayi \<Rightarrow> Arrayi \<Rightarrow> Arrayi" where
  "Arrayi_minus a b = map2 (\<lambda>x y. int32 (x - y)) a b"

definition Arrayi_plus :: "Arrayi \<Rightarrow> Arrayi \<Rightarrow> Arrayi" where
  "Arrayi_plus a b = map2 (\<lambda>x y. int32 (x + y)) a b"

definition Arrayi_max :: "Arrayi \<Rightarrow> Arrayi \<Rightarrow> Arrayi" where
  "Arrayi_max a b = map2 max a b"

definition Arrayi_min :: "Arrayi \<Rightarrow> Arrayi \<Rightarrow> Arrayi" where
  "Arrayi_min a b = map2 min a b"

section \<open>Execution policies, errors and the cell linked list\<close>

datatype execution_policy = SequencedPolicy | ParallelPolicy

text \<open>
  Reading a cell outside the allocated grid, or a particle outside the particle arrays, is
  undefined behaviour in the source. The model makes both a result of their own.
\<close>

datatype error = CellOutOfRange Arrayi | ParticleOutOfRange nat | LevelOutOfRange nat

text \<open>
  A cell linked list: the number of cells along each axis, and per cell the list of particle
  indices and the list of cached records (particle index and position). Positions are
  floating-point vectors in the source; their type is left open as \<open>'p\<close>.
\<close>

record 'p CellLinkedList =
  all_cells :: Arrayi
  cell_index_lists :: "Arrayi \<Rightarrow> nat list"
  cell_data_lists :: "Arrayi \<Rightarrow> (nat \<times> 'p) list"

definition in_grid :: "Arrayi \<Rightarrow> Arrayi \<Rightarrow> bool" where
  "in_grid extent cell_index = list_all2 (\<lambda>c a. 0 \<le> c \<and> c < a) cell_index extent"

text \<open>
  Modelled from the spec: \<open>getCellDataList\<close> is declared in the mesh headers, whose
  source is not available. The spec's lookup returns the list stored for a cell coordinate.
  Only the cells \<open>0 \<le> c < all_cells\<close> are allocated, so the model is given the extent of
  the grid as well, and a read elsewhere is the error \<open>CellOutOfRange\<close>.
\<close>

definition getCellDataList :: "Arrayi \<Rightarrow> (Arrayi \<Rightarrow> 'a) \<Rightarrow> Arrayi \<Rightarrow> error + 'a" where
  "getCellDataList extent data cell_index =
     (if in_grid extent cell_index then Inr (data cell_index)
      else Inl (CellOutOfRange cell_index))"

section \<open>Iterators\<close>

text \<open>A loop whose body may fail: the first error ends it.\<close>

fun for_each :: "('a \<Rightarrow> 's \<Rightarrow> error + 's) \<Rightarrow> 'a list \<Rightarrow> 's \<Rightarrow> error + 's" where
  "for_each f [] s = Inr s"
| "for_each f (x # xs) s = (case f x s of Inl e \<Rightarrow> Inl e | Inr s' \<Rightarrow> for_each f xs s')"

text \<open>
  Modelled from the spec: the cells of the axis-aligned box \<open>lower \<le> c < upper\<close>, which
  the mesh iterators of mesh_iterators.hpp (source not available) run over. The cells are
  listed in increasing order, the first axis outermost; the box is empty when
  \<open>upper \<le> lower\<close> on some axis.
\<close>

definition mesh_cells :: "Arrayi \<Rightarrow> Arrayi \<Rightarrow> Arrayi list" where
  "mesh_cells lower upper = product_lists (map2 (\<lambda>l u. [l..u - 1]) lower upper)"

text \<open>
  Modelled from the spec: \<open>mesh_for_each\<close> (mesh_iterators.hpp, source not available)
  calls the function on every cell of the box \<open>lower \<le> c < upper\<close>.
\<close>

definition mesh_for_each ::
  "Arrayi \<Rightarrow> Arrayi \<Rightarrow> (Arrayi \<Rightarrow> 's \<Rightarrow> error + 's) \<Rightarrow> 's \<Rightarrow> error + 's" where
  "mesh_for_each lower upper function s = for_each function (mesh_cells lower upper) s"

section \<open>Neighbor search\<close>

text \<open>
  The search is instrumented with a log of what it does: the policy handed to
  \<open>particle_for\<close>, every cell read through \<open>getCellDataList\<close> (with the particle the read
  is for), and every call of the neighbor relation (particle and candidate record).
\<close>

datatype 'p event =
    Dispatch execution_policy
  | CellAccess nat Arrayi
  | RelationCall nat "nat \<times> 'p"

text \<open>
  Modelled from the spec: \<open>particle_for\<close> (particle_iterators.h, source not available)
  runs the body for each particle of the range. Under the sequenced policy the
  particles are taken in the order of the range; under the parallel policy there is no
  ordering guarantee, and the order taken is \<open>schedule loop_range\<close>.
\<close>

definition particle_for ::
  "execution_policy \<Rightarrow> (nat list \<Rightarrow> nat list) \<Rightarrow> nat list \<Rightarrow>
   (nat \<Rightarrow> 'c \<times> 'p event list \<Rightarrow> error + 'c \<times> 'p event list) \<Rightarrow>
   'c \<times> 'p event list \<Rightarrow> error + 'c \<times> 'p event list" where
  "particle_for policy schedule loop_range body st =
     for_each body
       (case policy of SequencedPolicy \<Rightarrow> loop_range | ParallelPolicy \<Rightarrow> schedule loop_range)
       (fst st, snd st @ [Dispatch policy])"

definition search_lower :: "nat \<Rightarrow> Arrayi \<Rightarrow> int \<Rightarrow> Arrayi" where
  "search_lower n target_cell_index search_depth =
     Arrayi_max (Arrayi_Zero n)
       (Arrayi_minus target_cell_index (Arrayi_scale search_depth (Arrayi_Ones n)))"

definition search_upper :: "Arrayi \<Rightarrow> Arrayi \<Rightarrow> int \<Rightarrow> Arrayi" where
  "search_upper extent target_cell_index search_depth =
     Arrayi_min extent
       (Arrayi_plus target_cell_index
          (Arrayi_scale (int32 (search_depth + 1)) (Arrayi_Ones (length extent))))"

definition relate ::
  "('nb \<Rightarrow> 'p \<Rightarrow> nat \<Rightarrow> nat \<times> 'p \<Rightarrow> 'nb) \<Rightarrow> 'p \<Rightarrow> nat \<Rightarrow> nat \<times> 'p \<Rightarrow>
   'nb \<times> 'p event list \<Rightarrow> 'nb \<times> 'p event list" where
  "relate get_neighbor_relation pos_i index_i data_list w =
     (get_neighbor_relation (fst w) pos_i index_i data_list,
      snd w @ [RelationCall index_i data_list])"

definition visit_cell ::
  "'p CellLinkedList \<Rightarrow> ('nb \<Rightarrow> 'p \<Rightarrow> nat \<Rightarrow> nat \<times> 'p \<Rightarrow> 'nb) \<Rightarrow> 'p \<Rightarrow> nat \<Rightarrow> Arrayi \<Rightarrow>
   'nb \<times> 'p event list \<Rightarrow> error + 'nb \<times> 'p event list" where
  "visit_cell mesh get_neighbor_relation pos_i index_i cell_index w =
     (case getCellDataList (all_cells mesh) (cell_data_lists mesh) cell_index of
        Inl e \<Rightarrow> Inl e
      | Inr target_particles \<Rightarrow>
          Inr (fold (relate get_neighbor_relation pos_i index_i) target_particles
                 (fst w, snd w @ [CellAccess index_i cell_index])))"

text \<open>The body of the particle loop of \<open>searchNeighborsByParticles\<close>.\<close>

definition search_particle ::
  "'p CellLinkedList \<Rightarrow> ('p \<Rightarrow> Arrayi) \<Rightarrow> 'p list \<Rightarrow> (nat \<Rightarrow> int) \<Rightarrow>
   ('nb \<Rightarrow> 'p \<Rightarrow> nat \<Rightarrow> nat \<times> 'p \<Rightarrow> 'nb) \<Rightarrow> nat \<Rightarrow>
   'nb list \<times> 'p event list \<Rightarrow> error + 'nb list \<times> 'p event list" where
  "search_particle mesh CellIndexFromPosition pos get_search_depth get_neighbor_relation
     index_i st =
     (if index_i < length pos \<and> index_i < length (fst st) then
        (let search_depth = int32 (get_search_depth index_i);
             target_cell_index = CellIndexFromPosition (pos ! index_i);
             neighborhood = fst st ! index_i
         in case mesh_for_each
                   (search_lower (length (all_cells mesh)) target_cell_index search_depth)
                   (search_upper (all_cells mesh) target_cell_index search_depth)
                   (visit_cell mesh get_neighbor_relation (pos ! index_i) index_i)
                   (neighborhood, snd st) of
              Inl e \<Rightarrow> Inl e
            | Inr w \<Rightarrow> Inr ((fst st)[index_i := fst w], snd w))
      else Inl (ParticleOutOfRange index_i))"

text \<open>
  \<open>CellLinkedList::searchNeighborsByParticles\<close>. \<open>CellIndexFromPosition\<close> belongs to the
  mesh base class and is taken as a parameter; \<open>loop_range\<close> is the list of particle
  indices of the dynamics range and \<open>pos\<close> the particle positions.
\<close>

definition searchNeighborsByParticles ::
  "'p CellLinkedList \<Rightarrow> ('p \<Rightarrow> Arrayi) \<Rightarrow> (nat list \<Rightarrow> nat list) \<Rightarrow> 'p list \<Rightarrow> nat list \<Rightarrow>
   'nb list \<Rightarrow> (nat \<Rightarrow> int) \<Rightarrow> ('nb \<Rightarrow> 'p \<Rightarrow> nat \<Rightarrow> nat \<times> 'p \<Rightarrow> 'nb) \<Rightarrow>
   error + 'nb list \<times> 'p event list" where
  "searchNeighborsByParticles mesh CellIndexFromPosition schedule pos loop_range
     particle_configuration get_search_depth get_neighbor_relation =
     particle_for ParallelPolicy schedule loop_range
       (search_particle mesh CellIndexFromPosition pos get_search_depth get_neighbor_relation)
       (particle_configuration, [])"

subsection \<open>Reading the log\<close>

fun accessed_cell :: "nat \<Rightarrow> 'p event \<Rightarrow> Arrayi list" where
  "accessed_cell i (CellAccess j c) = (if j = i then [c] else [])"
| "accessed_cell i (Dispatch policy) = []"
| "accessed_cell i (RelationCall j r) = []"

definition cells_accessed :: "nat \<Rightarrow> 'p event list \<Rightarrow> Arrayi list" where
  "cells_accessed i tr = concat (map (accessed_cell i) tr)"

fun related_record :: "nat \<Rightarrow> 'p event \<Rightarrow> (nat \<times> 'p) list" where
  "related_record i (RelationCall j r) = (if j = i then [r] else [])"
| "related_record i (Dispatch policy) = []"
| "related_record i (CellAccess j c) = []"

definition relation_calls :: "nat \<Rightarrow> 'p event list \<Rightarrow> (nat \<times> 'p) list" where
  "relation_calls i tr = concat (map (related_record i) tr)"

fun dispatched :: "'p event \<Rightarrow> execution_policy list" where
  "dispatched (Dispatch policy) = [policy]"
| "dispatched (CellAccess j c) = []"
| "dispatched (RelationCall j r) = []"

definition dispatches :: "'p event list \<Rightarrow> execution_policy list" where
  "dispatches tr = concat (map dispatched tr)"

subsection \<open>What one particle's search does\<close>

text \<open>
  The cells of particle \<open>i\<close>'s search box in the order they are read, the events the
  search logs for \<open>i\<close>, and the effect of the relation calls on \<open>i\<close>'s neighborhood.
\<close>

definition search_box ::
  "'p CellLinkedList \<Rightarrow> ('p \<Rightarrow> Arrayi) \<Rightarrow> 'p list \<Rightarrow> (nat \<Rightarrow> int) \<Rightarrow> nat \<Rightarrow> Arrayi list" where
  "search_box mesh CellIndexFromPosition pos get_search_depth i =
     mesh_cells
       (search_lower (length (all_cells mesh)) (CellIndexFromPosition (pos ! i))
          (int32 (get_search_depth i)))
       (search_upper (all_cells mesh) (CellIndexFromPosition (pos ! i))
          (int32 (get_search_depth i)))"

definition cell_events :: "'p CellLinkedList \<Rightarrow> nat \<Rightarrow> Arrayi \<Rightarrow> 'p event list" where
  "cell_events mesh i c = CellAccess i c # map (RelationCall i) (cell_data_lists mesh c)"

definition particle_events ::
  "'p CellLinkedList \<Rightarrow> ('p \<Rightarrow> Arrayi) \<Rightarrow> 'p list \<Rightarrow> (nat \<Rightarrow> int) \<Rightarrow> nat \<Rightarrow> 'p event list" where
  "particle_events mesh CellIndexFromPosition pos get_search_depth i =
     concat (map (cell_events mesh i) (search_box mesh CellIndexFromPosition pos get_search_depth i))"

definition neighborhood_of ::
  "'p CellLinkedList \<Rightarrow> ('p \<Rightarrow> Arrayi) \<Rightarrow> 'p list \<Rightarrow> (nat \<Rightarrow> int) \<Rightarrow>
   ('nb \<Rightarrow> 'p \<Rightarrow> nat \<Rightarrow> nat \<times> 'p \<Rightarrow> 'nb) \<Rightarrow> nat \<Rightarrow> 'nb \<Rightarrow> 'nb" where
  "neighborhood_of mesh CellIndexFromPosition pos get_search_depth get_neighbor_relation i nb =
     fold (\<lambda>r nb. get_neighbor_relation nb (pos ! i) i r)
       (concat (map (cell_data_lists mesh)
          (search_box mesh CellIndexFromPosition pos get_search_depth i))) nb"

text \<open>The inputs are well formed: every particle of the range has a position and a
  neighborhood, and cell coordinates have the dimension of the grid.\<close>

definition well_formed ::
  "'p CellLinkedList \<Rightarrow> ('p \<Rightarrow> Arrayi) \<Rightarrow> 'p list \<Rightarrow> nat list \<Rightarrow> 'nb list \<Rightarrow> bool" where
  "well_formed mesh CellIndexFromPosition pos loop_range particle_configuration =
     (list_all (\<lambda>i. i < length pos \<and> i < length particle_configuration) loop_range \<and>
      list_all (\<lambda>p. length (CellIndexFromPosition p) = length (all_cells mesh)) pos)"

text \<open>
  The arithmetic of the search box does not leave the 32-bit range: then \<open>int32\<close> changes
  nothing, and the bounds are those of the mathematical integers.
\<close>

definition in_int32 :: "int \<Rightarrow> bool" where
  "in_int32 x = (- (2 ^ 31) \<le> x \<and> x < 2 ^ 31)"

definition no_overflow :: "Arrayi \<Rightarrow> int \<Rightarrow> bool" where
  "no_overflow target_cell_index search_depth =
     (in_int32 search_depth \<and> in_int32 (search_depth + 1) \<and>
      list_all (\<lambda>t. in_int32 (t - search_depth) \<and> in_int32 (t + (search_depth + 1)))
        target_cell_index)"

text \<open>
  The box of cells the search computes for a target cell \<open>t\<close> and a search depth \<open>d\<close>
  (already an \<open>int\<close>): from \<open>max 0 (t - d)\<close> up to, and excluding,
  \<open>min all_cells (t + (d + 1))\<close> along every axis, in the 32-bit arithmetic of the code.
\<close>

definition clamped_box :: "Arrayi \<Rightarrow> Arrayi \<Rightarrow> int \<Rightarrow> Arrayi set" where
  "clamped_box extent t d =
     {c. length c = length extent \<and>
         (\<forall>k < length extent.
            max 0 (int32 (t ! k - d)) \<le> c ! k \<and>
            c ! k < min (extent ! k) (int32 (t ! k + int32 (d + 1))))}"

subsection \<open>A small example\<close>

text \<open>
  A grid of 3 by 2 cells with particle 0 in cell (0, 0) and particle 1 in cell (2, 1).
  Positions are given directly by their cell coordinates, and the neighbor relation
  appends the candidate's index to a list.
\<close>

definition ex_mesh :: "Arrayi CellLinkedList" where
  "ex_mesh = \<lparr>all_cells = [3, 2],
     cell_index_lists = (\<lambda>c. if c = [0, 0] then [0] else if c = [2, 1] then [1] else []),
     cell_data_lists =
       (\<lambda>c. if c = [0, 0] then [(0, [0, 0])] else if c = [2, 1] then [(1, [2, 1])] else [])\<rparr>"

definition ex_pos :: "Arrayi list" where
  "ex_pos = [[0, 0], [2, 1]]"

definition ex_relation :: "nat list \<Rightarrow> Arrayi \<Rightarrow> nat \<Rightarrow> nat \<times> Arrayi \<Rightarrow> nat list" where
  "ex_relation neighborhood pos_i index_i data_list = neighborhood @ [fst data_list]"

section \<open>Split iteration\<close>

type_synonym MeshRange = "Arrayi \<times> Arrayi"

text \<open>
  The stride iterators \<open>mesh_stride_forward_for\<close>, \<open>mesh_stride_backward_for\<close> and their
  parallel variants are declared in mesh_iterators.hpp, whose source is not available. They
  are modelled from the spec: the cells of the range are grouped by a coloring scheme with
  the given stride along every axis. The forward sweep takes the color groups in increasing
  order and the cells of a group in increasing order; the backward sweep takes the groups,
  and the cells of each group, in decreasing order. In the parallel variants a color group
  is one parallel batch: a group starts only when the one before is complete, and the order
  of the cells inside a batch is the one \<open>cell_schedule\<close> picks.
\<close>

text \<open>
  Modelled from the spec: the color of a cell under the stride coloring is its offset from
  the lower corner of the range, modulo the stride, on each axis.
\<close>

definition cell_color :: "MeshRange \<Rightarrow> Arrayi \<Rightarrow> Arrayi \<Rightarrow> Arrayi" where
  "cell_color mesh_range stride c =
     map2 (\<lambda>x s. x mod s) (map2 (\<lambda>x l. x - l) c (fst mesh_range)) stride"

text \<open>Modelled from the spec: the cells of the range that have a given color.\<close>

definition color_group :: "MeshRange \<Rightarrow> Arrayi \<Rightarrow> Arrayi \<Rightarrow> Arrayi list" where
  "color_group mesh_range stride color =
     filter (\<lambda>c. cell_color mesh_range stride c = color)
       (mesh_cells (fst mesh_range) (snd mesh_range))"

text \<open>
  Modelled from the spec: the color groups of the range, one per color \<open>0 \<le> m < stride\<close>,
  in increasing order of the color.
\<close>

definition color_groups :: "MeshRange \<Rightarrow> Arrayi \<Rightarrow> Arrayi list list" where
  "color_groups mesh_range stride =
     map (color_group mesh_range stride) (mesh_cells (Arrayi_Zero (length stride)) stride)"

text \<open>Modelled from the spec: the forward sweep, group after group.\<close>

definition mesh_stride_forward_for ::
  "MeshRange \<Rightarrow> Arrayi \<Rightarrow> (Arrayi \<Rightarrow> 's \<Rightarrow> error + 's) \<Rightarrow> 's \<Rightarrow> error + 's" where
  "mesh_stride_forward_for mesh_range stride local_function s =
     for_each (\<lambda>group. for_each local_function group) (color_groups mesh_range stride) s"

text \<open>Modelled from the spec: the backward sweep, the forward order reversed.\<close>

definition mesh_stride_backward_for ::
  "MeshRange \<Rightarrow> Arrayi \<Rightarrow> (Arrayi \<Rightarrow> 's \<Rightarrow> error + 's) \<Rightarrow> 's \<Rightarrow> error + 's" where
  "mesh_stride_backward_for mesh_range stride local_function s =
     for_each (\<lambda>group. for_each local_function (rev group))
       (rev (color_groups mesh_range stride)) s"

text \<open>
  Modelled from the spec: the parallel forward sweep; each color group is a batch whose
  cells run in the order the schedule picks.
\<close>

definition mesh_stride_forward_parallel_for ::
  "(Arrayi list \<Rightarrow> Arrayi list) \<Rightarrow> MeshRange \<Rightarrow> Arrayi \<Rightarrow>
   (Arrayi \<Rightarrow> 's \<Rightarrow> error + 's) \<Rightarrow> 's \<Rightarrow> error + 's" where
  "mesh_stride_forward_parallel_for cell_schedule mesh_range stride local_function s =
     for_each (\<lambda>group. for_each local_function (cell_schedule group))
       (color_groups mesh_range stride) s"

text \<open>Modelled from the spec: the parallel backward sweep, batch after batch.\<close>

definition mesh_stride_backward_parallel_for ::
  "(Arrayi list \<Rightarrow> Arrayi list) \<Rightarrow> MeshRange \<Rightarrow> Arrayi \<Rightarrow>
   (Arrayi \<Rightarrow> 's \<Rightarrow> error + 's) \<Rightarrow> 's \<Rightarrow> error + 's" where
  "mesh_stride_backward_parallel_for cell_schedule mesh_range stride local_function s =
     for_each (\<lambda>group. for_each local_function (cell_schedule (rev group)))
       (rev (color_groups mesh_range stride)) s"

text \<open>
  The two cell bodies of \<open>CellLinkedList::particle_for_split\<close>: the forward one is a range
  loop over the cell's index list, the backward one counts \<open>i\<close> down from the size of the
  list to 1 and applies the function to element \<open>i - 1\<close>.
\<close>

definition forward_cell ::
  "'p CellLinkedList \<Rightarrow> (nat \<Rightarrow> 's \<Rightarrow> 's) \<Rightarrow> Arrayi \<Rightarrow> 's \<Rightarrow> error + 's" where
  "forward_cell mesh local_dynamics_function cell_index s =
     (case getCellDataList (all_cells mesh) (cell_index_lists mesh) cell_index of
        Inl e \<Rightarrow> Inl e
      | Inr cell_list \<Rightarrow> Inr (fold local_dynamics_function cell_list s))"

fun backward_loop :: "(nat \<Rightarrow> 's \<Rightarrow> 's) \<Rightarrow> nat list \<Rightarrow> nat \<Rightarrow> 's \<Rightarrow> 's" where
  "backward_loop local_dynamics_function cell_list 0 s = s"
| "backward_loop local_dynamics_function cell_list (Suc i) s =
     backward_loop local_dynamics_function cell_list i (local_dynamics_function (cell_list ! i) s)"

definition backward_cell ::
  "'p CellLinkedList \<Rightarrow> (nat \<Rightarrow> 's \<Rightarrow> 's) \<Rightarrow> Arrayi \<Rightarrow> 's \<Rightarrow> error + 's" where
  "backward_cell mesh local_dynamics_function cell_index s =
     (case getCellDataList (all_cells mesh) (cell_index_lists mesh) cell_index of
        Inl e \<Rightarrow> Inl e
      | Inr cell_list \<Rightarrow>
          Inr (backward_loop local_dynamics_function cell_list (length cell_list) s))"

definition split_range :: "'p CellLinkedList \<Rightarrow> MeshRange" where
  "split_range mesh = (Arrayi_Zero (length (all_cells mesh)), all_cells mesh)"

definition split_stride :: "'p CellLinkedList \<Rightarrow> Arrayi" where
  "split_stride mesh = Arrayi_scale 3 (Arrayi_Ones (length (all_cells mesh)))"

text \<open>
  \<open>CellLinkedList::particle_for_split\<close>: the two overloads, selected by the type of the
  policy argument, as one function of the policy.
\<close>

definition particle_for_split ::
  "execution_policy \<Rightarrow> (Arrayi list \<Rightarrow> Arrayi list) \<Rightarrow> 'p CellLinkedList \<Rightarrow>
   (nat \<Rightarrow> 's \<Rightarrow> 's) \<Rightarrow> 's \<Rightarrow> error + 's" where
  "particle_for_split policy cell_schedule mesh local_dynamics_function s =
     (case policy of
        SequencedPolicy \<Rightarrow>
          (case mesh_stride_forward_for (split_range mesh) (split_stride mesh)
                  (forward_cell mesh local_dynamics_function) s of
             Inl e \<Rightarrow> Inl e
           | Inr s' \<Rightarrow>
               mesh_stride_backward_for (split_range mesh) (split_stride mesh)
                 (backward_cell mesh local_dynamics_function) s')
      | ParallelPolicy \<Rightarrow>
          (case mesh_stride_forward_parallel_for cell_schedule (split_range mesh)
                  (split_stride mesh) (forward_cell mesh local_dynamics_function) s of
             Inl e \<Rightarrow> Inl e
           | Inr s' \<Rightarrow>
               mesh_stride_backward_parallel_for cell_schedule (split_range mesh)
                 (split_stride mesh) (backward_cell mesh local_dynamics_function) s'))"

text \<open>The parallel batches of the split iteration of a mesh, in forward order.\<close>

definition split_batches :: "'p CellLinkedList \<Rightarrow> Arrayi list list" where
  "split_batches mesh = color_groups (split_range mesh) (split_stride mesh)"

text \<open>
  The cells in the order the forward sweep and the backward sweep of the sequenced split
  iteration reach them.
\<close>

definition forward_cells :: "'p CellLinkedList \<Rightarrow> Arrayi list" where
  "forward_cells mesh = concat (split_batches mesh)"

definition backward_cells :: "'p CellLinkedList \<Rightarrow> Arrayi list" where
  "backward_cells mesh = concat (map rev (rev (split_batches mesh)))"

section \<open>Multilevel cell linked list\<close>

text \<open>
  The levels are held in a vector of pointers, and \<open>total_levels_\<close> is a \<open>size_t\<close>, a
  64-bit unsigned counter. Reading a level outside the vector is the error
  \<open>LevelOutOfRange\<close>.
\<close>

record 'p MultilevelCellLinkedList =
  total_levels :: "64 word"
  mesh_levels :: "'p CellLinkedList list"

function levels_loop ::
  "execution_policy \<Rightarrow> (Arrayi list \<Rightarrow> Arrayi list) \<Rightarrow> 'p MultilevelCellLinkedList \<Rightarrow>
   (nat \<Rightarrow> 's \<Rightarrow> 's) \<Rightarrow> 64 word \<Rightarrow> 's \<Rightarrow> error + 's" where
  "levels_loop policy cell_schedule ml local_dynamics_function level s =
     (if level \<noteq> total_levels ml then
        (if unat level < length (mesh_levels ml) then
           (case particle_for_split policy cell_schedule (mesh_levels ml ! unat level)
                   local_dynamics_function s of
              Inl e \<Rightarrow> Inl e
            | Inr s' \<Rightarrow> levels_loop policy cell_schedule ml local_dynamics_function (level + 1) s')
         else Inl (LevelOutOfRange (unat level)))
      else Inr s)"
  by pat_completeness auto
termination
proof (relation "measure (\<lambda>(policy, cell_schedule, ml, f, level, s). unat (total_levels ml - level))")
  show "wf (measure (\<lambda>(policy, cell_schedule, ml, f, level, s). unat (total_levels ml - level)))"
    by simp
next
  fix policy :: execution_policy and cell_schedule :: "Arrayi list \<Rightarrow> Arrayi list"
    and ml :: "'p MultilevelCellLinkedList" and f :: "nat \<Rightarrow> 's \<Rightarrow> 's" and level :: "64 word"
    and s x2 :: 's
  assume "level \<noteq> total_levels ml"
  then have "total_levels ml - level \<noteq> 0"
    by simp
  then have less: "unat (total_levels ml - level - 1) < unat (total_levels ml - level)"
    by (simp add: unat_minus_one unat_gt_0)
  have "total_levels ml - (level + 1) = total_levels ml - level - 1"
    by simp
  with less have "unat (total_levels ml - (level + 1)) < unat (total_levels ml - level)"
    by (simp only:)
  then show "((policy, cell_schedule, ml, f, level + 1, x2), (policy, cell_schedule, ml, f, level, s))
      \<in> measure (\<lambda>(policy, cell_schedule, ml, f, level, s). unat (total_levels ml - level))"
    by simp
qed

definition Multilevel_particle_for_split ::
  "execution_policy \<Rightarrow> (Arrayi list \<Rightarrow> Arrayi list) \<Rightarrow> 'p MultilevelCellLinkedList \<Rightarrow>
   (nat \<Rightarrow> 's \<Rightarrow> 's) \<Rightarrow> 's \<Rightarrow> error + 's" where
  "Multilevel_particle_for_split policy cell_schedule ml local_dynamics_function s =
     levels_loop policy cell_schedule ml local_dynamics_function 0 s"

subsection \<open>Examples\<close>

text \<open>A grid of 1 by 4 cells with one particle per cell, and a two-level structure.\<close>

definition ex_wide_mesh :: "Arrayi CellLinkedList" where
  "ex_wide_mesh = \<lparr>all_cells = [1, 4],
     cell_index_lists = (\<lambda>c. if c = [0, 0] then [0, 4] else if c = [0, 1] then [1]
        else if c = [0, 2] then [2] else if c = [0, 3] then [3] else []),
     cell_data_lists = (\<lambda>c. [])\<rparr>"

definition ex_levels :: "Arrayi MultilevelCellLinkedList" where
  "ex_levels = \<lparr>total_levels = 2, mesh_levels = [ex_mesh, ex_wide_mesh]\<rparr>"

text \<open>A local dynamics function that records the particle it is applied to.\<close>

definition record_particle :: "nat \<Rightarrow> nat list \<Rightarrow> nat list" where
  "record_particle index_i s = s @ [index_i]"

section \<open>Properties of the neighbor search\<close>

subsection \<open>Auxiliary facts\<close>

lemma int32_range: "- (2 ^ 31) \<le> int32 x \<and> int32 x < 2 ^ 31"
  by (simp add: int32_def)

lemma int32_id: "- (2 ^ 31) \<le> x \<Longrightarrow> x < 2 ^ 31 \<Longrightarrow> int32 x = x"
  by (simp add: int32_def)

lemma int32_idem: "int32 (int32 x) = int32 x"
  using int32_range [of x] by (simp add: int32_id)

lemma length_search_lower:
  "length (search_lower n t d) = min n (length t)"
  by (simp add: search_lower_def Arrayi_max_def Arrayi_minus_def Arrayi_scale_def
      Arrayi_Zero_def Arrayi_Ones_def)

lemma length_search_upper:
  "length (search_upper a t d) = min (length a) (length t)"
  by (simp add: search_upper_def Arrayi_min_def Arrayi_plus_def Arrayi_scale_def Arrayi_Ones_def)

lemma nth_search_lower:
  "k < n \<Longrightarrow> k < length t \<Longrightarrow> search_lower n t d ! k = max 0 (int32 (t ! k - int32 d))"
  by (simp add: search_lower_def Arrayi_max_def Arrayi_minus_def Arrayi_scale_def
      Arrayi_Zero_def Arrayi_Ones_def)

lemma nth_search_upper:
  "k < length a \<Longrightarrow> k < length t \<Longrightarrow>
   search_upper a t d ! k = min (a ! k) (int32 (t ! k + int32 (int32 (d + 1))))"
  by (simp add: search_upper_def Arrayi_min_def Arrayi_plus_def Arrayi_scale_def Arrayi_Ones_def)

lemma mesh_cells_iff:
  "c \<in> set (mesh_cells lower upper) \<longleftrightarrow>
     length c = min (length lower) (length upper) \<and>
     (\<forall>k < length c. lower ! k \<le> c ! k \<and> c ! k < upper ! k)"
  by (auto simp: mesh_cells_def product_lists_set list_all2_conv_all_nth)

lemma distinct_mesh_cells: "distinct (mesh_cells lower upper)"
  unfolding mesh_cells_def
  by (rule distinct_product_lists) auto

lemma in_grid_iff:
  "in_grid a c \<longleftrightarrow> length c = length a \<and> (\<forall>k < length a. 0 \<le> c ! k \<and> c ! k < a ! k)"
  by (auto simp: in_grid_def list_all2_conv_all_nth)

lemma search_cells_in_grid:
  assumes "length t = length a"
    and "c \<in> set (mesh_cells (search_lower (length a) t d) (search_upper a t d))"
  shows "in_grid a c"
proof -
  from assms have len: "length c = length a"
    by (simp add: mesh_cells_iff length_search_lower length_search_upper)
  have "0 \<le> c ! k \<and> c ! k < a ! k" if "k < length a" for k
  proof -
    from assms that len have "search_lower (length a) t d ! k \<le> c ! k"
      and "c ! k < search_upper a t d ! k"
      by (simp_all add: mesh_cells_iff)
    with assms(1) that show ?thesis
      by (simp add: nth_search_lower nth_search_upper)
  qed
  with len show ?thesis by (simp add: in_grid_iff)
qed

lemma fold_relate:
  "fold (relate rel p i) rs w =
     (fold (\<lambda>r nb. rel nb p i r) rs (fst w), snd w @ map (RelationCall i) rs)"
  by (induction rs arbitrary: w) (simp_all add: relate_def)

lemma visit_cell_in_grid:
  "in_grid (all_cells mesh) c \<Longrightarrow>
   visit_cell mesh rel p i c w =
     Inr (fold (\<lambda>r nb. rel nb p i r) (cell_data_lists mesh c) (fst w),
          snd w @ cell_events mesh i c)"
  by (simp add: visit_cell_def getCellDataList_def fold_relate cell_events_def)

lemma for_each_visit_cell:
  "\<forall>c \<in> set cells. in_grid (all_cells mesh) c \<Longrightarrow>
   for_each (visit_cell mesh rel p i) cells w =
     Inr (fold (\<lambda>r nb. rel nb p i r) (concat (map (cell_data_lists mesh) cells)) (fst w),
          snd w @ concat (map (cell_events mesh i) cells))"
  by (induction cells arbitrary: w) (simp_all add: visit_cell_in_grid)

lemma search_particle_ok:
  assumes "i < length pos" and "i < length cfg"
    and "length (cifp (pos ! i)) = length (all_cells mesh)"
  shows "search_particle mesh cifp pos depth rel i (cfg, tr) =
     Inr (cfg[i := neighborhood_of mesh cifp pos depth rel i (cfg ! i)],
          tr @ particle_events mesh cifp pos depth i)"
proof -
  have "\<forall>c \<in> set (search_box mesh cifp pos depth i). in_grid (all_cells mesh) c"
    unfolding search_box_def using assms(3) by (blast intro: search_cells_in_grid)
  then show ?thesis
    using assms(1,2)
    by (simp add: search_particle_def mesh_for_each_def for_each_visit_cell
        neighborhood_of_def particle_events_def search_box_def [symmetric])
qed

lemma length_fold_update:
  "length (fold (\<lambda>i cfg. cfg[i := g i (cfg ! i)]) order cfg) = length cfg"
  by (induction order arbitrary: cfg) simp_all

lemma nth_fold_update:
  "i < length cfg \<Longrightarrow>
   fold (\<lambda>i cfg. cfg[i := g i (cfg ! i)]) order cfg ! i = (g i ^^ count_list order i) (cfg ! i)"
proof (induction order arbitrary: cfg)
  case Nil
  then show ?case by simp
next
  case (Cons j order)
  show ?case
  proof (cases "j = i")
    case True
    with Cons show ?thesis by (simp add: funpow_swap1)
  next
    case False
    with Cons show ?thesis by simp
  qed
qed

lemma for_each_search_particle:
  assumes "\<forall>i \<in> set order. i < length pos \<and> i < length cfg"
    and "\<forall>i \<in> set order. length (cifp (pos ! i)) = length (all_cells mesh)"
  shows "for_each (search_particle mesh cifp pos depth rel) order (cfg, tr) =
     Inr (fold (\<lambda>i cfg. cfg[i := neighborhood_of mesh cifp pos depth rel i (cfg ! i)]) order cfg,
          tr @ concat (map (particle_events mesh cifp pos depth) order))"
  using assms
proof (induction order arbitrary: cfg tr)
  case Nil
  then show ?case by simp
next
  case (Cons j order)
  then show ?case by (simp add: search_particle_ok)
qed

lemma for_each_search_particle_Inl:
  assumes "list_all (\<lambda>p. length (cifp p) = length (all_cells mesh)) pos"
    and "for_each (search_particle mesh cifp pos depth rel) order (cfg, tr) = Inl e"
  shows "\<exists>i \<in> set order. e = ParticleOutOfRange i"
  using assms(2)
proof (induction order arbitrary: cfg tr)
  case Nil
  then show ?case by simp
next
  case (Cons j order)
  show ?case
  proof (cases "j < length pos \<and> j < length cfg")
    case True
    with assms(1) have "length (cifp (pos ! j)) = length (all_cells mesh)"
      by (simp add: list_all_length)
    with True Cons.prems have "for_each (search_particle mesh cifp pos depth rel) order
        (cfg[j := neighborhood_of mesh cifp pos depth rel j (cfg ! j)],
         tr @ particle_events mesh cifp pos depth j) = Inl e"
      by (simp add: search_particle_ok)
    from Cons.IH [OF this] show ?thesis by simp
  next
    case False
    with Cons.prems show ?thesis by (auto simp: search_particle_def)
  qed
qed

lemma for_each_search_particle_Inr:
  assumes "list_all (\<lambda>p. length (cifp p) = length (all_cells mesh)) pos"
    and "for_each (search_particle mesh cifp pos depth rel) order (cfg, tr) = Inr st"
  shows "(\<forall>i \<in> set order. i < length pos \<and> i < length cfg) \<and>
     snd st = tr @ concat (map (particle_events mesh cifp pos depth) order)"
  using assms(2)
proof (induction order arbitrary: cfg tr)
  case Nil
  then show ?case by auto
next
  case (Cons j order)
  have valid: "j < length pos \<and> j < length cfg"
  proof (rule ccontr)
    assume "\<not> ?thesis"
    with Cons.prems show False by (auto simp: search_particle_def)
  qed
  with assms(1) have "length (cifp (pos ! j)) = length (all_cells mesh)"
    by (simp add: list_all_length)
  with valid Cons.prems have "for_each (search_particle mesh cifp pos depth rel) order
      (cfg[j := neighborhood_of mesh cifp pos depth rel j (cfg ! j)],
       tr @ particle_events mesh cifp pos depth j) = Inr st"
    by (simp add: search_particle_ok)
  from Cons.IH [OF this] valid show ?case by simp
qed

lemma cells_accessed_append:
  "cells_accessed i (tr1 @ tr2) = cells_accessed i tr1 @ cells_accessed i tr2"
  by (simp add: cells_accessed_def)

lemma relation_calls_append:
  "relation_calls i (tr1 @ tr2) = relation_calls i tr1 @ relation_calls i tr2"
  by (simp add: relation_calls_def)

lemma cells_accessed_cell_events:
  "cells_accessed i (cell_events mesh j c) = (if j = i then [c] else [])"
proof -
  have "concat (map (accessed_cell i) (map (RelationCall j) rs)) = []" for rs :: "(nat \<times> 'a) list"
    by (induction rs) simp_all
  then show ?thesis by (simp add: cells_accessed_def cell_events_def)
qed

lemma relation_calls_cell_events:
  "relation_calls i (cell_events mesh j c) = (if j = i then cell_data_lists mesh c else [])"
proof -
  have "concat (map (related_record i) (map (RelationCall j) rs)) = (if j = i then rs else [])"
    for rs :: "(nat \<times> 'a) list"
    by (induction rs) simp_all
  then show ?thesis by (simp add: relation_calls_def cell_events_def)
qed

lemma cells_accessed_concat_cell_events:
  "cells_accessed i (concat (map (cell_events mesh j) cells)) = (if j = i then cells else [])"
  by (induction cells) (simp_all add: cells_accessed_append cells_accessed_cell_events, simp add: cells_accessed_def)

lemma relation_calls_concat_cell_events:
  "relation_calls i (concat (map (cell_events mesh j) cells)) =
     (if j = i then concat (map (cell_data_lists mesh) cells) else [])"
  by (induction cells) (simp_all add: relation_calls_append relation_calls_cell_events, simp add: relation_calls_def)

lemma concat_map_if_count:
  "concat (map (\<lambda>j. if j = i then xs else []) order) = concat (replicate (count_list order i) xs)"
  by (induction order) simp_all

lemma cells_accessed_particles:
  "cells_accessed i (concat (map (particle_events mesh cifp pos depth) order)) =
     concat (replicate (count_list order i) (search_box mesh cifp pos depth i))"
proof -
  have "cells_accessed i (concat (map (particle_events mesh cifp pos depth) order)) =
      concat (map (\<lambda>j. if j = i then search_box mesh cifp pos depth i else []) order)"
    by (induction order)
      (simp_all add: cells_accessed_append particle_events_def cells_accessed_concat_cell_events,
        simp add: cells_accessed_def)
  then show ?thesis by (simp add: concat_map_if_count)
qed

lemma relation_calls_particles:
  "relation_calls i (concat (map (particle_events mesh cifp pos depth) order)) =
     concat (replicate (count_list order i)
       (concat (map (cell_data_lists mesh) (search_box mesh cifp pos depth i))))"
proof -
  have "relation_calls i (concat (map (particle_events mesh cifp pos depth) order)) =
      concat (map (\<lambda>j. if j = i then concat (map (cell_data_lists mesh)
        (search_box mesh cifp pos depth i)) else []) order)"
    by (induction order)
      (simp_all add: relation_calls_append particle_events_def relation_calls_concat_cell_events,
        simp add: relation_calls_def)
  then show ?thesis by (simp add: concat_map_if_count)
qed



lemma search_result:
  assumes wf: "well_formed mesh cifp pos loop_range cfg"
    and perm: "mset (schedule loop_range) = mset loop_range"
  shows "searchNeighborsByParticles mesh cifp schedule pos loop_range cfg depth rel =
     Inr (fold (\<lambda>i cfg. cfg[i := neighborhood_of mesh cifp pos depth rel i (cfg ! i)])
            (schedule loop_range) cfg,
          Dispatch ParallelPolicy #
            concat (map (particle_events mesh cifp pos depth) (schedule loop_range)))"
proof -
  from perm have set_eq: "set (schedule loop_range) = set loop_range"
    by (rule mset_eq_setD)
  with wf have valid: "\<forall>i \<in> set (schedule loop_range). i < length pos \<and> i < length cfg"
    by (simp add: well_formed_def list_all_iff)
  with wf have "\<forall>i \<in> set (schedule loop_range). length (cifp (pos ! i)) = length (all_cells mesh)"
    by (simp add: well_formed_def list_all_length)
  with valid show ?thesis
    by (simp add: searchNeighborsByParticles_def particle_for_def for_each_search_particle)
qed

lemma count_list_schedule:
  "mset (schedule loop_range) = mset loop_range \<Longrightarrow>
   count_list (schedule loop_range) i = count_list loop_range i"
  by (metis count_mset)

lemma count_list_distinct:
  "distinct xs \<Longrightarrow> x \<in> set xs \<Longrightarrow> count_list xs x = 1"
  by (induction xs) auto

lemma search_box_set:
  assumes "length (cifp (pos ! i)) = length (all_cells mesh)"
  shows "set (search_box mesh cifp pos depth i) =
     clamped_box (all_cells mesh) (cifp (pos ! i)) (int32 (depth i))"
  using assms
  by (auto simp: search_box_def clamped_box_def mesh_cells_iff length_search_lower
      length_search_upper nth_search_lower nth_search_upper int32_idem)

lemma no_overflow_bounds:
  assumes "no_overflow t d" and "k < length t"
  shows "int32 (t ! k - int32 d) = t ! k - d"
    and "int32 (t ! k + int32 (int32 d + 1)) = t ! k + d + 1"
proof -
  from assms have d: "in_int32 d" "in_int32 (d + 1)"
    and t: "in_int32 (t ! k - d)" "in_int32 (t ! k + (d + 1))"
    by (simp_all add: no_overflow_def list_all_length)
  from d have "int32 d = d" "int32 (d + 1) = d + 1"
    by (simp_all add: in_int32_def int32_id)
  with t show "int32 (t ! k - int32 d) = t ! k - d"
    and "int32 (t ! k + int32 (int32 d + 1)) = t ! k + d + 1"
    by (simp_all add: in_int32_def int32_id)
qed

lemma cells_accessed_Dispatch: "cells_accessed i (Dispatch p # tr) = cells_accessed i tr"
  by (simp add: cells_accessed_def)

lemma relation_calls_Dispatch: "relation_calls i (Dispatch p # tr) = relation_calls i tr"
  by (simp add: relation_calls_def)

lemma CellAccess_in_cell_events:
  "CellAccess i c \<in> set (cell_events mesh j c') \<longleftrightarrow> i = j \<and> c = c'"
  by (auto simp: cell_events_def)

lemma RelationCall_in_cell_events:
  "RelationCall i r \<in> set (cell_events mesh j c) \<longleftrightarrow> i = j \<and> r \<in> set (cell_data_lists mesh c)"
  by (auto simp: cell_events_def)

lemma CellAccess_in_particle_events:
  "CellAccess i c \<in> set (particle_events mesh cifp pos depth j) \<longleftrightarrow>
     i = j \<and> c \<in> set (search_box mesh cifp pos depth j)"
  by (auto simp: particle_events_def CellAccess_in_cell_events)

lemma RelationCall_in_particle_events:
  "RelationCall i r \<in> set (particle_events mesh cifp pos depth j) \<longleftrightarrow>
     i = j \<and> (\<exists>c \<in> set (search_box mesh cifp pos depth j). r \<in> set (cell_data_lists mesh c))"
  by (auto simp: particle_events_def RelationCall_in_cell_events)

lemma clamped_box_in_grid:
  "c \<in> clamped_box extent t d \<Longrightarrow>
   length c = length extent \<and> (\<forall>k < length extent. 0 \<le> c ! k \<and> c ! k < extent ! k)"
  by (auto simp: clamped_box_def)

lemma fold_update_outside:
  "j \<notin> set order \<Longrightarrow> fold (\<lambda>i cfg. cfg[i := g i (cfg ! i)]) order cfg ! j = cfg ! j"
  by (induction order arbitrary: cfg) auto

lemma own_cell_in_clamped_box:
  assumes grid: "in_grid extent t" and depth: "0 \<le> d" and no: "no_overflow t d"
  shows "t \<in> clamped_box extent t (int32 d)"
proof -
  from grid have len: "length t = length extent"
    and bounds: "\<forall>k < length extent. 0 \<le> t ! k \<and> t ! k < extent ! k"
    by (simp_all add: in_grid_iff)
  have "max 0 (int32 (t ! k - int32 d)) \<le> t ! k \<and>
      t ! k < min (extent ! k) (int32 (t ! k + int32 (int32 d + 1)))"
    if "k < length extent" for k
  proof -
    from that len have "k < length t" by simp
    from no_overflow_bounds [OF no this] bounds that depth show ?thesis
      by simp
  qed
  with len show ?thesis
    by (simp add: clamped_box_def)
qed

lemma dispatches_cell_events: "dispatches (concat (map (cell_events mesh i) cells)) = []"
  by (induction cells) (simp_all add: dispatches_def cell_events_def)

lemma dispatches_particle_events:
  "dispatches (concat (map (particle_events mesh cifp pos depth) order)) = []"
proof (induction order)
  case Nil
  then show ?case by (simp add: dispatches_def)
next
  case (Cons i order)
  have "dispatches (particle_events mesh cifp pos depth i) = []"
    unfolding particle_events_def by (rule dispatches_cell_events)
  with Cons show ?case
    by (simp add: dispatches_def)
qed

lemma fold_concat_replicate:
  "fold g (concat (replicate n xs)) s = (fold g xs ^^ n) s"
proof (induction n arbitrary: s)
  case 0
  then show ?case by simp
next
  case (Suc n)
  then show ?case by (simp add: funpow_swap1)
qed

lemma set_concat_replicate:
  "0 < n \<Longrightarrow> set (concat (replicate n xs)) = set xs"
  by (cases n) auto

lemma count_list_positive: "x \<in> set xs \<Longrightarrow> 0 < count_list xs x"
  by (induction xs) auto

subsection \<open>The search box\<close>

text \<open>
  C1. For every particle \<open>i\<close> of the dynamics range, the search reads every cell of the
  clamped box around \<open>i\<close>'s cell exactly once and no other cell: the cells read for \<open>i\<close>
  are distinct and form the set \<open>max 0 (t - d) \<le> c < min all_cells (t + d + 1)\<close>, where
  \<open>t\<close> is \<open>i\<close>'s cell and \<open>d\<close> its search depth. The neighbor relation is called for
  \<open>i\<close> with the records of these cells, each stored record once, and \<open>i\<close>'s neighborhood
  is the result of these calls.
\<close>

theorem search_scans_clamped_box:
  assumes wf: "well_formed mesh cifp pos loop_range cfg"
    and perm: "mset (schedule loop_range) = mset loop_range"
    and dist: "distinct loop_range"
    and i: "i \<in> set loop_range"
  shows "\<exists>cfg' tr.
     searchNeighborsByParticles mesh cifp schedule pos loop_range cfg depth rel = Inr (cfg', tr) \<and>
     distinct (cells_accessed i tr) \<and>
     set (cells_accessed i tr) = clamped_box (all_cells mesh) (cifp (pos ! i)) (int32 (depth i)) \<and>
     (no_overflow (cifp (pos ! i)) (depth i) \<longrightarrow>
        set (cells_accessed i tr) =
          {c. length c = length (all_cells mesh) \<and>
              (\<forall>k < length (all_cells mesh).
                 max 0 (cifp (pos ! i) ! k - depth i) \<le> c ! k \<and>
                 c ! k < min (all_cells mesh ! k) (cifp (pos ! i) ! k + depth i + 1))}) \<and>
     relation_calls i tr = concat (map (cell_data_lists mesh) (cells_accessed i tr)) \<and>
     cfg' ! i = fold (\<lambda>r nb. rel nb (pos ! i) i r) (relation_calls i tr) (cfg ! i)"
proof -
  let ?order = "schedule loop_range"
  let ?cfg' = "fold (\<lambda>i cfg. cfg[i := neighborhood_of mesh cifp pos depth rel i (cfg ! i)]) ?order cfg"
  let ?tr = "Dispatch ParallelPolicy # concat (map (particle_events mesh cifp pos depth) ?order)"
  let ?t = "cifp (pos ! i)"
  have res: "searchNeighborsByParticles mesh cifp schedule pos loop_range cfg depth rel =
      Inr (?cfg', ?tr)"
    using wf perm by (rule search_result)
  from dist i perm have once: "count_list ?order i = 1"
    by (simp add: count_list_schedule count_list_distinct)
  from wf i have valid: "i < length pos" "i < length cfg"
    by (simp_all add: well_formed_def list_all_iff)
  with wf have dim: "length ?t = length (all_cells mesh)"
    by (simp add: well_formed_def list_all_length)
  have cells: "cells_accessed i ?tr = search_box mesh cifp pos depth i"
    by (simp add: cells_accessed_Dispatch cells_accessed_particles once)
  have calls: "relation_calls i ?tr =
      concat (map (cell_data_lists mesh) (search_box mesh cifp pos depth i))"
    by (simp add: relation_calls_Dispatch relation_calls_particles once)
  have d: "distinct (cells_accessed i ?tr)"
    by (simp add: cells search_box_def distinct_mesh_cells)
  have box: "set (cells_accessed i ?tr) = clamped_box (all_cells mesh) ?t (int32 (depth i))"
    using dim by (simp add: cells search_box_set)
  have math: "set (cells_accessed i ?tr) =
      {c. length c = length (all_cells mesh) \<and>
          (\<forall>k < length (all_cells mesh).
             max 0 (?t ! k - depth i) \<le> c ! k \<and>
             c ! k < min (all_cells mesh ! k) (?t ! k + depth i + 1))}"
    if "no_overflow ?t (depth i)"
    unfolding box clamped_box_def
    using no_overflow_bounds [OF that] dim by auto
  have nb: "?cfg' ! i = fold (\<lambda>r nb. rel nb (pos ! i) i r) (relation_calls i ?tr) (cfg ! i)"
  proof -
    have "?cfg' ! i = neighborhood_of mesh cifp pos depth rel i (cfg ! i)"
      using valid(2) by (simp add: nth_fold_update once)
    then show ?thesis by (simp add: calls neighborhood_of_def)
  qed
  from res d box math calls cells nb show ?thesis by simp
qed

theorem search_scans_clamped_box_witness:
  "well_formed ex_mesh id ex_pos [0, 1] [[], []] \<and>
   mset (rev [0, 1 :: nat]) = mset [0, 1] \<and> distinct [0, 1 :: nat] \<and> (0 :: nat) \<in> set [0, 1] \<and>
   (\<exists>cfg' tr.
     searchNeighborsByParticles ex_mesh id rev ex_pos [0, 1] [[], []] (\<lambda>i. 1) ex_relation =
       Inr (cfg', tr) \<and>
     distinct (cells_accessed 0 tr) \<and>
     set (cells_accessed 0 tr) = clamped_box (all_cells ex_mesh) (id (ex_pos ! 0)) (int32 1) \<and>
     relation_calls 0 tr = concat (map (cell_data_lists ex_mesh) (cells_accessed 0 tr)) \<and>
     cfg' ! 0 = fold (\<lambda>r nb. ex_relation nb (ex_pos ! 0) 0 r) (relation_calls 0 tr) ([[], []] ! 0))"
proof -
  have a: "well_formed ex_mesh id ex_pos [0, 1] [[], []]"
    by (simp add: well_formed_def ex_mesh_def ex_pos_def)
  have b: "mset (rev [0, 1 :: nat]) = mset [0, 1]"
    by simp
  have c: "distinct [0, 1 :: nat]"
    by simp
  have d: "(0 :: nat) \<in> set [0, 1]"
    by simp
  from search_scans_clamped_box [where mesh = ex_mesh and cifp = id and pos = ex_pos
      and loop_range = "[0, 1]" and cfg = "[[], []]" and schedule = rev and i = 0
      and depth = "\<lambda>i. 1" and rel = ex_relation, OF a b c d] a b c d
  show ?thesis by (elim exE conjE) (intro conjI exI, assumption+)
qed

text \<open>
  C2. Whatever the positions, the search depths and the grid extent, the search never
  reads a cell outside the allocated grid: it never fails with \<open>CellOutOfRange\<close>, every
  cell it reads lies in the clamped box of the particle it is read for, hence in
  \<open>0 \<le> c < all_cells\<close> on every axis, and every record the neighbor relation is called
  with is stored in such a cell.
\<close>

theorem search_never_leaves_grid:
  assumes dims: "list_all (\<lambda>p. length (cifp p) = length (all_cells mesh)) pos"
  shows "(\<forall>c. searchNeighborsByParticles mesh cifp schedule pos loop_range cfg depth rel \<noteq>
            Inl (CellOutOfRange c)) \<and>
     (\<forall>cfg' tr. searchNeighborsByParticles mesh cifp schedule pos loop_range cfg depth rel =
          Inr (cfg', tr) \<longrightarrow>
        (\<forall>i c. CellAccess i c \<in> set tr \<longrightarrow>
           c \<in> clamped_box (all_cells mesh) (cifp (pos ! i)) (int32 (depth i)) \<and>
           length c = length (all_cells mesh) \<and>
           (\<forall>k < length (all_cells mesh). 0 \<le> c ! k \<and> c ! k < all_cells mesh ! k)) \<and>
        (\<forall>i r. RelationCall i r \<in> set tr \<longrightarrow>
           (\<exists>c \<in> clamped_box (all_cells mesh) (cifp (pos ! i)) (int32 (depth i)).
              CellAccess i c \<in> set tr \<and> r \<in> set (cell_data_lists mesh c))))"
proof -
  let ?order = "schedule loop_range"
  let ?res = "searchNeighborsByParticles mesh cifp schedule pos loop_range cfg depth rel"
  have no_cell_error: "?res \<noteq> Inl (CellOutOfRange c)" for c
    using for_each_search_particle_Inl [OF dims]
    by (fastforce simp: searchNeighborsByParticles_def particle_for_def)
  have logged: "(\<forall>i c. CellAccess i c \<in> set tr \<longrightarrow>
         c \<in> clamped_box (all_cells mesh) (cifp (pos ! i)) (int32 (depth i)) \<and>
         length c = length (all_cells mesh) \<and>
         (\<forall>k < length (all_cells mesh). 0 \<le> c ! k \<and> c ! k < all_cells mesh ! k)) \<and>
      (\<forall>i r. RelationCall i r \<in> set tr \<longrightarrow>
         (\<exists>c \<in> clamped_box (all_cells mesh) (cifp (pos ! i)) (int32 (depth i)).
            CellAccess i c \<in> set tr \<and> r \<in> set (cell_data_lists mesh c)))"
    if res: "?res = Inr (cfg', tr)" for cfg' tr
  proof -
    from res have run: "for_each (search_particle mesh cifp pos depth rel) ?order
        (cfg, [Dispatch ParallelPolicy]) = Inr (cfg', tr)"
      by (simp add: searchNeighborsByParticles_def particle_for_def)
    from for_each_search_particle_Inr [OF dims run]
    have valid: "\<forall>i \<in> set ?order. i < length pos \<and> i < length cfg"
      and tr: "tr = [Dispatch ParallelPolicy] @
          concat (map (particle_events mesh cifp pos depth) ?order)"
      by simp_all
    have box: "set (search_box mesh cifp pos depth i) =
        clamped_box (all_cells mesh) (cifp (pos ! i)) (int32 (depth i))"
      if "i \<in> set ?order" for i
    proof -
      from that valid have "i < length pos" by simp
      with dims have "length (cifp (pos ! i)) = length (all_cells mesh)"
        by (simp add: list_all_length)
      then show ?thesis by (rule search_box_set)
    qed
    have cells: "c \<in> clamped_box (all_cells mesh) (cifp (pos ! i)) (int32 (depth i)) \<and>
        length c = length (all_cells mesh) \<and>
        (\<forall>k < length (all_cells mesh). 0 \<le> c ! k \<and> c ! k < all_cells mesh ! k)"
      if "CellAccess i c \<in> set tr" for i c
    proof -
      from that tr have i: "i \<in> set ?order" and c: "c \<in> set (search_box mesh cifp pos depth i)"
        by (auto simp: CellAccess_in_particle_events)
      from c box [OF i]
      have "c \<in> clamped_box (all_cells mesh) (cifp (pos ! i)) (int32 (depth i))"
        by simp
      then show ?thesis
        using clamped_box_in_grid by blast
    qed
    have calls: "\<exists>c \<in> clamped_box (all_cells mesh) (cifp (pos ! i)) (int32 (depth i)).
        CellAccess i c \<in> set tr \<and> r \<in> set (cell_data_lists mesh c)"
      if "RelationCall i r \<in> set tr" for i r
    proof -
      from that tr obtain c where i: "i \<in> set ?order"
        and c: "c \<in> set (search_box mesh cifp pos depth i)"
        and r: "r \<in> set (cell_data_lists mesh c)"
        by (auto simp: RelationCall_in_particle_events)
      from i c have "CellAccess i c \<in> set tr"
        unfolding tr by (auto simp: CellAccess_in_particle_events)
      with c r box [OF i] show ?thesis
        by blast
    qed
    from cells calls show ?thesis by blast
  qed
  from no_cell_error logged show ?thesis by blast
qed

theorem search_never_leaves_grid_witness:
  "list_all (\<lambda>p. length (id p) = length (all_cells ex_mesh)) ex_pos \<and>
   (\<forall>c. searchNeighborsByParticles ex_mesh id rev ex_pos [0, 1] [[], []] (\<lambda>i. 5) ex_relation \<noteq>
      Inl (CellOutOfRange c)) \<and>
   (\<exists>cfg' tr.
      searchNeighborsByParticles ex_mesh id rev ex_pos [0, 1] [[], []] (\<lambda>i. 5) ex_relation =
        Inr (cfg', tr) \<and>
      (\<forall>i c. CellAccess i c \<in> set tr \<longrightarrow>
         length c = length (all_cells ex_mesh) \<and>
         (\<forall>k < length (all_cells ex_mesh). 0 \<le> c ! k \<and> c ! k < all_cells ex_mesh ! k)))"
proof -
  let ?res = "searchNeighborsByParticles ex_mesh id rev ex_pos [0, 1] [[], []] (\<lambda>i. 5) ex_relation"
  have dims: "list_all (\<lambda>p. length (id p) = length (all_cells ex_mesh)) ex_pos"
    by (simp add: ex_mesh_def ex_pos_def)
  have wf: "well_formed ex_mesh id ex_pos [0, 1] [[], []]"
    by (simp add: well_formed_def ex_mesh_def ex_pos_def)
  have "mset (rev [0, 1 :: nat]) = mset [0, 1]"
    by simp
  with wf obtain cfg' tr where res: "?res = Inr (cfg', tr)"
    using search_result by blast
  note grid = search_never_leaves_grid [where mesh = ex_mesh and cifp = id and pos = ex_pos
      and schedule = rev and loop_range = "[0, 1]" and cfg = "[[], []]" and depth = "\<lambda>i. 5"
      and rel = ex_relation, OF dims]
  from grid have "\<forall>c. ?res \<noteq> Inl (CellOutOfRange c)"
    by blast
  moreover from grid res have "\<forall>i c. CellAccess i c \<in> set tr \<longrightarrow>
      length c = length (all_cells ex_mesh) \<and>
      (\<forall>k < length (all_cells ex_mesh). 0 \<le> c ! k \<and> c ! k < all_cells ex_mesh ! k)"
    by blast
  ultimately show ?thesis
    using dims res by blast
qed

subsection \<open>A particle without neighbors\<close>

text \<open>
  C6. When every cell of particle \<open>i\<close>'s clamped search box holds an empty list of
  records, the search completes without an error, the neighbor relation is never called
  for \<open>i\<close>, and \<open>i\<close>'s neighborhood is still there and is what it was before the search:
  nothing is appended to it.
\<close>

theorem empty_cells_give_empty_neighborhood:
  assumes wf: "well_formed mesh cifp pos loop_range cfg"
    and perm: "mset (schedule loop_range) = mset loop_range"
    and i: "i \<in> set loop_range"
    and empty: "\<forall>c \<in> clamped_box (all_cells mesh) (cifp (pos ! i)) (int32 (depth i)).
        cell_data_lists mesh c = []"
  shows "\<exists>cfg' tr.
     searchNeighborsByParticles mesh cifp schedule pos loop_range cfg depth rel = Inr (cfg', tr) \<and>
     relation_calls i tr = [] \<and>
     (\<forall>r. RelationCall i r \<notin> set tr) \<and>
     length cfg' = length cfg \<and> i < length cfg' \<and> cfg' ! i = cfg ! i"
proof -
  let ?order = "schedule loop_range"
  let ?cfg' = "fold (\<lambda>i cfg. cfg[i := neighborhood_of mesh cifp pos depth rel i (cfg ! i)]) ?order cfg"
  let ?tr = "Dispatch ParallelPolicy # concat (map (particle_events mesh cifp pos depth) ?order)"
  have res: "searchNeighborsByParticles mesh cifp schedule pos loop_range cfg depth rel =
      Inr (?cfg', ?tr)"
    using wf perm by (rule search_result)
  from wf i have valid: "i < length pos" "i < length cfg"
    by (simp_all add: well_formed_def list_all_iff)
  with wf have dim: "length (cifp (pos ! i)) = length (all_cells mesh)"
    by (simp add: well_formed_def list_all_length)
  from empty have none: "concat (map (cell_data_lists mesh) (search_box mesh cifp pos depth i)) = []"
    by (simp add: search_box_set [symmetric] dim)
  have calls: "relation_calls i ?tr = []"
    by (simp add: relation_calls_Dispatch relation_calls_particles none)
  have no_call: "RelationCall i r \<notin> set ?tr" for r
  proof
    assume "RelationCall i r \<in> set ?tr"
    then obtain c where "c \<in> set (search_box mesh cifp pos depth i)"
      and "r \<in> set (cell_data_lists mesh c)"
      by (auto simp: RelationCall_in_particle_events)
    with none show False by simp
  qed
  have id: "neighborhood_of mesh cifp pos depth rel i = (\<lambda>nb. nb)"
    by (simp add: neighborhood_of_def none fun_eq_iff)
  have "((\<lambda>nb. nb) ^^ n) x = x" for n and x :: 'c
    by (induction n) simp_all
  with valid(2) have same: "?cfg' ! i = cfg ! i"
    by (simp only: nth_fold_update id)
  have len: "length ?cfg' = length cfg"
    by (rule length_fold_update)
  from res calls no_call same len valid(2) show ?thesis
    by simp
qed

theorem empty_cells_give_empty_neighborhood_witness:
  "well_formed ex_mesh id [[1, 0]] [0] [[]] \<and>
   mset (rev [0 :: nat]) = mset [0] \<and> (0 :: nat) \<in> set [0] \<and>
   (\<nexists>c. c \<in> clamped_box (all_cells ex_mesh) (id ([[1, 0]] ! 0)) (int32 0) \<and>
      cell_data_lists ex_mesh c \<noteq> []) \<and>
   (\<exists>cfg' tr.
      searchNeighborsByParticles ex_mesh id rev [[1, 0]] [0] [[]] (\<lambda>i. 0) ex_relation =
        Inr (cfg', tr) \<and>
      relation_calls 0 tr = [] \<and> length cfg' = length [[] :: nat list] \<and>
      cfg' ! 0 = [[]] ! 0)"
proof -
  have a: "well_formed ex_mesh id [[1, 0]] [0] [[]]"
    by (simp add: well_formed_def ex_mesh_def)
  have b: "mset (rev [0 :: nat]) = mset [0]"
    by simp
  have c: "(0 :: nat) \<in> set [0]"
    by simp
  have d: "\<forall>c \<in> clamped_box (all_cells ex_mesh) (id ([[1, 0]] ! 0)) (int32 0).
      cell_data_lists ex_mesh c = []"
  proof
    fix c
    assume "c \<in> clamped_box (all_cells ex_mesh) (id ([[1, 0]] ! 0)) (int32 0)"
    then have "c ! 0 = 1"
      by (auto simp: clamped_box_def ex_mesh_def int32_def)
    then have "c \<noteq> [0, 0]" and "c \<noteq> [2, 1]"
      by auto
    then show "cell_data_lists ex_mesh c = []"
      by (simp add: ex_mesh_def)
  qed
  from empty_cells_give_empty_neighborhood [where mesh = ex_mesh and cifp = id
      and pos = "[[1, 0]]" and loop_range = "[0]" and cfg = "[[]]" and schedule = rev
      and i = 0 and depth = "\<lambda>i. 0" and rel = ex_relation, OF a b c d]
  obtain cfg' tr where
    "searchNeighborsByParticles ex_mesh id rev [[1, 0]] [0] [[]] (\<lambda>i. 0) ex_relation =
       Inr (cfg', tr)"
    and "relation_calls 0 tr = []" and "length cfg' = length [[] :: nat list]"
    and "cfg' ! 0 = [[]] ! 0"
    by blast
  moreover from d have "\<nexists>c. c \<in> clamped_box (all_cells ex_mesh) (id ([[1, 0]] ! 0)) (int32 0) \<and>
      cell_data_lists ex_mesh c \<noteq> []"
    by blast
  ultimately show ?thesis
    using a b c by blast
qed

subsection \<open>Independence of the schedule\<close>

text \<open>
  C7. The result of the search depends on its inputs only, not on the order in which the
  parallel loop takes the particles: for any two schedules of the same range the search
  returns the same particle configuration, and for every particle the neighbor relation is
  called with the same records (and the same cells are read).
\<close>

theorem search_is_schedule_independent:
  assumes wf: "well_formed mesh cifp pos loop_range cfg"
    and perm1: "mset (schedule1 loop_range) = mset loop_range"
    and perm2: "mset (schedule2 loop_range) = mset loop_range"
  shows "\<exists>cfg' tr1 tr2.
     searchNeighborsByParticles mesh cifp schedule1 pos loop_range cfg depth rel = Inr (cfg', tr1) \<and>
     searchNeighborsByParticles mesh cifp schedule2 pos loop_range cfg depth rel = Inr (cfg', tr2) \<and>
     (\<forall>i. relation_calls i tr1 = relation_calls i tr2) \<and>
     (\<forall>i. cells_accessed i tr1 = cells_accessed i tr2)"
proof -
  let ?upd = "\<lambda>i cfg. cfg[i := neighborhood_of mesh cifp pos depth rel i (cfg ! i)]"
  let ?tr1 = "Dispatch ParallelPolicy #
      concat (map (particle_events mesh cifp pos depth) (schedule1 loop_range))"
  let ?tr2 = "Dispatch ParallelPolicy #
      concat (map (particle_events mesh cifp pos depth) (schedule2 loop_range))"
  have res1: "searchNeighborsByParticles mesh cifp schedule1 pos loop_range cfg depth rel =
      Inr (fold ?upd (schedule1 loop_range) cfg, ?tr1)"
    using wf perm1 by (rule search_result)
  have res2: "searchNeighborsByParticles mesh cifp schedule2 pos loop_range cfg depth rel =
      Inr (fold ?upd (schedule2 loop_range) cfg, ?tr2)"
    using wf perm2 by (rule search_result)
  have count: "count_list (schedule1 loop_range) i = count_list (schedule2 loop_range) i" for i
    using perm1 perm2 by (simp add: count_list_schedule)
  have "fold ?upd (schedule1 loop_range) cfg = fold ?upd (schedule2 loop_range) cfg"
  proof (rule nth_equalityI)
    show "length (fold ?upd (schedule1 loop_range) cfg) = length (fold ?upd (schedule2 loop_range) cfg)"
      by (simp add: length_fold_update)
  next
    fix i
    assume "i < length (fold ?upd (schedule1 loop_range) cfg)"
    then have "i < length cfg"
      by (simp add: length_fold_update)
    then show "fold ?upd (schedule1 loop_range) cfg ! i = fold ?upd (schedule2 loop_range) cfg ! i"
      by (simp add: nth_fold_update count)
  qed
  moreover have "relation_calls i ?tr1 = relation_calls i ?tr2" for i
    by (simp add: relation_calls_Dispatch relation_calls_particles count)
  moreover have "cells_accessed i ?tr1 = cells_accessed i ?tr2" for i
    by (simp add: cells_accessed_Dispatch cells_accessed_particles count)
  ultimately show ?thesis
    using res1 res2 by simp
qed

theorem search_is_schedule_independent_witness:
  "well_formed ex_mesh id ex_pos [0, 1] [[], []] \<and>
   mset (rev [0, 1 :: nat]) = mset [0, 1] \<and> mset (id [0, 1 :: nat]) = mset [0, 1] \<and>
   (\<exists>cfg' tr1 tr2.
     searchNeighborsByParticles ex_mesh id rev ex_pos [0, 1] [[], []] (\<lambda>i. 2) ex_relation =
       Inr (cfg', tr1) \<and>
     searchNeighborsByParticles ex_mesh id id ex_pos [0, 1] [[], []] (\<lambda>i. 2) ex_relation =
       Inr (cfg', tr2) \<and>
     relation_calls 0 tr1 = relation_calls 0 tr2)"
proof -
  have a: "well_formed ex_mesh id ex_pos [0, 1] [[], []]"
    by (simp add: well_formed_def ex_mesh_def ex_pos_def)
  have b: "mset (rev [0, 1 :: nat]) = mset [0, 1]"
    by simp
  have c: "mset (id [0, 1 :: nat]) = mset [0, 1]"
    by simp
  from search_is_schedule_independent [where mesh = ex_mesh and cifp = id and pos = ex_pos
      and loop_range = "[0, 1]" and cfg = "[[], []]" and ?schedule1.0 = rev and ?schedule2.0 = id
      and depth = "\<lambda>i. 2" and rel = ex_relation, OF a b c]
  obtain cfg' tr1 tr2 where
    "searchNeighborsByParticles ex_mesh id rev ex_pos [0, 1] [[], []] (\<lambda>i. 2) ex_relation =
       Inr (cfg', tr1)"
    and "searchNeighborsByParticles ex_mesh id id ex_pos [0, 1] [[], []] (\<lambda>i. 2) ex_relation =
       Inr (cfg', tr2)"
    and "\<forall>i. relation_calls i tr1 = relation_calls i tr2"
    by blast
  then show ?thesis
    using a b c by blast
qed

subsection \<open>Frame\<close>

text \<open>
  C9. The search changes the neighborhoods of the particles of the range only: the
  configuration keeps its size, and the neighborhood of every particle outside the range
  is unchanged. Positions and cell lists are arguments the search reads; they are not part
  of what it returns.
\<close>

theorem search_changes_only_the_range:
  assumes wf: "well_formed mesh cifp pos loop_range cfg"
    and perm: "mset (schedule loop_range) = mset loop_range"
  shows "\<exists>cfg' tr.
     searchNeighborsByParticles mesh cifp schedule pos loop_range cfg depth rel = Inr (cfg', tr) \<and>
     length cfg' = length cfg \<and>
     (\<forall>j. j \<notin> set loop_range \<longrightarrow> cfg' ! j = cfg ! j)"
proof -
  let ?upd = "\<lambda>i cfg. cfg[i := neighborhood_of mesh cifp pos depth rel i (cfg ! i)]"
  from perm have "set (schedule loop_range) = set loop_range"
    by (rule mset_eq_setD)
  then have "fold ?upd (schedule loop_range) cfg ! j = cfg ! j" if "j \<notin> set loop_range" for j
    using that by (simp add: fold_update_outside)
  moreover have "length (fold ?upd (schedule loop_range) cfg) = length cfg"
    by (rule length_fold_update)
  moreover have "searchNeighborsByParticles mesh cifp schedule pos loop_range cfg depth rel =
      Inr (fold ?upd (schedule loop_range) cfg,
        Dispatch ParallelPolicy #
          concat (map (particle_events mesh cifp pos depth) (schedule loop_range)))"
    using wf perm by (rule search_result)
  ultimately show ?thesis
    by simp
qed

theorem search_changes_only_the_range_witness:
  "well_formed ex_mesh id ex_pos [0] [[], [7]] \<and> mset (rev [0 :: nat]) = mset [0] \<and>
   (\<exists>cfg' tr.
     searchNeighborsByParticles ex_mesh id rev ex_pos [0] [[], [7]] (\<lambda>i. 2) ex_relation =
       Inr (cfg', tr) \<and>
     length cfg' = length [[], [7 :: nat]] \<and> cfg' ! 1 = [[], [7]] ! 1)"
proof -
  have a: "well_formed ex_mesh id ex_pos [0] [[], [7]]"
    by (simp add: well_formed_def ex_mesh_def ex_pos_def)
  have b: "mset (rev [0 :: nat]) = mset [0]"
    by simp
  from search_changes_only_the_range [where mesh = ex_mesh and cifp = id and pos = ex_pos
      and loop_range = "[0]" and cfg = "[[], [7]]" and schedule = rev
      and depth = "\<lambda>i. 2" and rel = ex_relation, OF a b]
  obtain cfg' tr where
    "searchNeighborsByParticles ex_mesh id rev ex_pos [0] [[], [7]] (\<lambda>i. 2) ex_relation =
       Inr (cfg', tr)"
    and "length cfg' = length [[], [7 :: nat]]"
    and "\<forall>j. j \<notin> set [0] \<longrightarrow> cfg' ! j = [[], [7]] ! j"
    by blast
  moreover from this have "cfg' ! 1 = [[], [7]] ! 1"
    by simp
  ultimately show ?thesis
    using a b by blast
qed

subsection \<open>No self-exclusion\<close>

text \<open>
  C10. The search does not leave a particle out of its own candidates: when a record of
  particle \<open>i\<close> itself is stored in a cell of \<open>i\<close>'s clamped search box, the neighbor
  relation is called for \<open>i\<close> with that record. The record is among the relation calls
  logged for \<open>i\<close>, and \<open>i\<close>'s neighborhood is what the caller's relation makes of these
  calls, the own record included, so that leaving the particle out is up to the relation
  alone. The own cell of \<open>i\<close> is read exactly when it lies in the clamped box, in the
  32-bit arithmetic of the code; it does when the cell lies in the grid, the search depth
  is not negative and the arithmetic does not overflow.
\<close>

theorem search_presents_own_record:
  assumes wf: "well_formed mesh cifp pos loop_range cfg"
    and perm: "mset (schedule loop_range) = mset loop_range"
    and i: "i \<in> set loop_range"
    and c: "c \<in> clamped_box (all_cells mesh) (cifp (pos ! i)) (int32 (depth i))"
    and r: "r \<in> set (cell_data_lists mesh c)"
    and own: "fst r = i"
  shows "\<exists>cfg' tr.
     searchNeighborsByParticles mesh cifp schedule pos loop_range cfg depth rel = Inr (cfg', tr) \<and>
     RelationCall i r \<in> set tr \<and>
     r \<in> set (relation_calls i tr) \<and>
     cfg' ! i = fold (\<lambda>r nb. rel nb (pos ! i) i r) (relation_calls i tr) (cfg ! i) \<and>
     (CellAccess i (cifp (pos ! i)) \<in> set tr \<longleftrightarrow>
        cifp (pos ! i) \<in> clamped_box (all_cells mesh) (cifp (pos ! i)) (int32 (depth i))) \<and>
     (in_grid (all_cells mesh) (cifp (pos ! i)) \<and> 0 \<le> depth i \<and>
      no_overflow (cifp (pos ! i)) (depth i) \<longrightarrow>
        cifp (pos ! i) \<in> clamped_box (all_cells mesh) (cifp (pos ! i)) (int32 (depth i)) \<and>
        CellAccess i (cifp (pos ! i)) \<in> set tr)"
proof -
  let ?order = "schedule loop_range"
  let ?cfg' = "fold (\<lambda>i cfg. cfg[i := neighborhood_of mesh cifp pos depth rel i (cfg ! i)]) ?order cfg"
  let ?tr = "Dispatch ParallelPolicy # concat (map (particle_events mesh cifp pos depth) ?order)"
  let ?t = "cifp (pos ! i)"
  let ?candidates = "concat (map (cell_data_lists mesh) (search_box mesh cifp pos depth i))"
  let ?n = "count_list ?order i"
  have res: "searchNeighborsByParticles mesh cifp schedule pos loop_range cfg depth rel =
      Inr (?cfg', ?tr)"
    using wf perm by (rule search_result)
  from perm i have order: "i \<in> set ?order"
    using mset_eq_setD by blast
  then have positive: "0 < ?n"
    by (rule count_list_positive)
  from wf i have valid: "i < length pos" "i < length cfg"
    by (simp_all add: well_formed_def list_all_iff)
  with wf have dim: "length ?t = length (all_cells mesh)"
    by (simp add: well_formed_def list_all_length)
  then have box: "set (search_box mesh cifp pos depth i) =
      clamped_box (all_cells mesh) ?t (int32 (depth i))"
    by (rule search_box_set)
  from c r box order have call: "RelationCall i r \<in> set ?tr"
    by (auto simp: RelationCall_in_particle_events)
  have calls: "relation_calls i ?tr = concat (replicate ?n ?candidates)"
    by (simp add: relation_calls_Dispatch relation_calls_particles)
  from c r box have "r \<in> set ?candidates"
    by auto
  with positive have logged: "r \<in> set (relation_calls i ?tr)"
    by (simp add: calls set_concat_replicate)
  have "?cfg' ! i = (neighborhood_of mesh cifp pos depth rel i ^^ ?n) (cfg ! i)"
    using valid(2) by (simp add: nth_fold_update)
  also have "neighborhood_of mesh cifp pos depth rel i =
      fold (\<lambda>r nb. rel nb (pos ! i) i r) ?candidates"
    by (simp add: neighborhood_of_def fun_eq_iff)
  finally have nb: "?cfg' ! i =
      fold (\<lambda>r nb. rel nb (pos ! i) i r) (relation_calls i ?tr) (cfg ! i)"
    by (simp add: calls fold_concat_replicate)
  from box order have read: "CellAccess i ?t \<in> set ?tr \<longleftrightarrow>
      ?t \<in> clamped_box (all_cells mesh) ?t (int32 (depth i))"
    by (auto simp: CellAccess_in_particle_events)
  have cell: "?t \<in> clamped_box (all_cells mesh) ?t (int32 (depth i)) \<and> CellAccess i ?t \<in> set ?tr"
    if "in_grid (all_cells mesh) ?t" and "0 \<le> depth i" and "no_overflow ?t (depth i)"
  proof -
    from that have "?t \<in> clamped_box (all_cells mesh) ?t (int32 (depth i))"
      by (rule own_cell_in_clamped_box)
    with read show ?thesis
      by simp
  qed
  from res call logged nb read cell show ?thesis
    by simp
qed

theorem search_presents_own_record_witness:
  "well_formed ex_mesh id ex_pos [0, 1] [[], []] \<and>
   mset (rev [0, 1 :: nat]) = mset [0, 1] \<and> (0 :: nat) \<in> set [0, 1] \<and>
   [0, 0] \<in> clamped_box (all_cells ex_mesh) (id (ex_pos ! 0)) (int32 1) \<and>
   (0, [0, 0]) \<in> set (cell_data_lists ex_mesh [0, 0]) \<and>
   fst (0 :: nat, [0, 0 :: int]) = 0 \<and>
   (\<exists>cfg' tr.
     searchNeighborsByParticles ex_mesh id rev ex_pos [0, 1] [[], []] (\<lambda>i. 1) ex_relation =
       Inr (cfg', tr) \<and>
     RelationCall 0 (0, [0, 0]) \<in> set tr \<and> CellAccess 0 [0, 0] \<in> set tr \<and>
     (0, [0, 0]) \<in> set (relation_calls 0 tr) \<and>
     cfg' ! 0 = fold (\<lambda>r nb. ex_relation nb (ex_pos ! 0) 0 r) (relation_calls 0 tr) ([[], []] ! 0) \<and>
     cfg' ! 0 = [0])"
proof -
  have a: "well_formed ex_mesh id ex_pos [0, 1] [[], []]"
    by (simp add: well_formed_def ex_mesh_def ex_pos_def)
  have b: "mset (rev [0, 1 :: nat]) = mset [0, 1]"
    by simp
  have c: "(0 :: nat) \<in> set [0, 1]"
    by simp
  have d: "[0, 0] \<in> clamped_box (all_cells ex_mesh) (id (ex_pos ! 0)) (int32 1)"
    by (simp add: clamped_box_def ex_mesh_def ex_pos_def int32_def less_Suc_eq numeral_2_eq_2)
  have e: "(0, [0, 0]) \<in> set (cell_data_lists ex_mesh [0, 0])"
    by (simp add: ex_mesh_def)
  have f: "fst (0 :: nat, [0, 0 :: int]) = 0"
    by simp
  have g: "in_grid (all_cells ex_mesh) (id (ex_pos ! 0)) \<and> (0 :: int) \<le> 1 \<and>
      no_overflow (id (ex_pos ! 0)) 1"
    by (simp add: in_grid_def ex_mesh_def ex_pos_def no_overflow_def in_int32_def)
  have run: "searchNeighborsByParticles ex_mesh id rev ex_pos [0, 1] [[], []] (\<lambda>i. 1) ex_relation =
      Inr ([[0], [1]],
           [Dispatch ParallelPolicy,
            CellAccess 1 [1, 0], CellAccess 1 [1, 1], CellAccess 1 [2, 0], CellAccess 1 [2, 1],
            RelationCall 1 (1, [2, 1]),
            CellAccess 0 [0, 0], RelationCall 0 (0, [0, 0]), CellAccess 0 [0, 1],
            CellAccess 0 [1, 0], CellAccess 0 [1, 1]])"
    by code_simp
  from search_presents_own_record [where mesh = ex_mesh and cifp = id and pos = ex_pos
      and loop_range = "[0, 1]" and cfg = "[[], []]" and schedule = rev and i = 0
      and c = "[0, 0]" and r = "(0, [0, 0])" and depth = "\<lambda>i. 1" and rel = ex_relation,
      OF a b c d e f] g
  obtain cfg' tr where
    res: "searchNeighborsByParticles ex_mesh id rev ex_pos [0, 1] [[], []] (\<lambda>i. 1) ex_relation =
       Inr (cfg', tr)"
    and call: "RelationCall 0 (0, [0, 0]) \<in> set tr"
    and cell: "CellAccess 0 (id (ex_pos ! 0)) \<in> set tr"
    and logged: "(0, [0, 0]) \<in> set (relation_calls 0 tr)"
    and nb: "cfg' ! 0 =
       fold (\<lambda>r nb. ex_relation nb (ex_pos ! 0) 0 r) (relation_calls 0 tr) ([[], []] ! 0)"
    by blast
  from res run have "cfg' = [[0], [1]]"
    by simp
  then have own: "cfg' ! 0 = [0]"
    by simp
  have "id (ex_pos ! 0) = [0, 0]"
    by (simp add: ex_pos_def)
  with cell have cell': "CellAccess 0 [0, 0] \<in> set tr"
    by simp
  from res call cell' logged nb own a b c d e f show ?thesis
    by blast
qed

section \<open>Properties of the split iteration\<close>

subsection \<open>Auxiliary facts\<close>

lemma backward_loop_take:
  "n \<le> length xs \<Longrightarrow> backward_loop f xs n s = fold f (rev (take n xs)) s"
proof (induction n arbitrary: s)
  case 0
  then show ?case by simp
next
  case (Suc n)
  then show ?case by (simp add: take_Suc_conv_app_nth)
qed

lemma backward_loop_rev: "backward_loop f xs (length xs) s = fold f (rev xs) s"
  by (simp add: backward_loop_take)

lemma forward_cell_in_grid:
  "in_grid (all_cells mesh) c \<Longrightarrow>
   forward_cell mesh f c s = Inr (fold f (cell_index_lists mesh c) s)"
  by (simp add: forward_cell_def getCellDataList_def)

lemma backward_cell_in_grid:
  "in_grid (all_cells mesh) c \<Longrightarrow>
   backward_cell mesh f c s = Inr (fold f (rev (cell_index_lists mesh c)) s)"
  by (simp add: backward_cell_def getCellDataList_def backward_loop_rev)

lemma for_each_append:
  "for_each body (xs @ ys) s =
     (case for_each body xs s of Inl e \<Rightarrow> Inl e | Inr s' \<Rightarrow> for_each body ys s')"
  by (induction xs arbitrary: s) (simp_all split: sum.splits)

lemma for_each_groups:
  "for_each (\<lambda>group. for_each body (h group)) groups s = for_each body (concat (map h groups)) s"
  by (induction groups arbitrary: s) (simp_all add: for_each_append split: sum.splits)

lemma for_each_fold:
  "\<forall>x \<in> set xs. \<forall>s. body x s = Inr (fold f (g x) s) \<Longrightarrow>
   for_each body xs s = Inr (fold f (concat (map g xs)) s)"
  by (induction xs arbitrary: s) simp_all

lemma mset_filter_disjoint:
  "\<forall>x. \<not> (P x \<and> Q x) \<Longrightarrow>
   mset (filter P xs) + mset (filter Q xs) = mset (filter (\<lambda>x. P x \<or> Q x) xs)"
  by (induction xs) auto

lemma mset_concat_filter_keys:
  "distinct ks \<Longrightarrow>
   mset (concat (map (\<lambda>k. filter (\<lambda>x. key x = k) xs) ks)) = mset (filter (\<lambda>x. key x \<in> set ks) xs)"
proof (induction ks)
  case Nil
  then show ?case by simp
next
  case (Cons k ks)
  then have "\<forall>x. \<not> (key x = k \<and> key x \<in> set ks)"
    by auto
  from mset_filter_disjoint [OF this, of xs] Cons show ?case
    by (simp del: mset_filter)
qed

lemma in_grid_cells: "set (mesh_cells (Arrayi_Zero (length extent)) extent) = {c. in_grid extent c}"
  by (auto simp: mesh_cells_iff in_grid_iff Arrayi_Zero_def)

lemma split_stride_eq: "split_stride mesh = replicate (length (all_cells mesh)) 3"
  by (simp add: split_stride_def Arrayi_scale_def Arrayi_Ones_def int32_def)

lemma cell_color_split:
  assumes "in_grid (all_cells mesh) c"
  shows "length (cell_color (split_range mesh) (split_stride mesh) c) = length (all_cells mesh)"
    and "k < length (all_cells mesh) \<Longrightarrow>
      cell_color (split_range mesh) (split_stride mesh) c ! k = c ! k mod 3"
  using assms
  by (simp_all add: cell_color_def split_range_def split_stride_eq Arrayi_Zero_def in_grid_iff)

lemma cell_color_is_color:
  assumes "in_grid (all_cells mesh) c"
  shows "cell_color (split_range mesh) (split_stride mesh) c \<in>
     set (mesh_cells (Arrayi_Zero (length (split_stride mesh))) (split_stride mesh))"
  using cell_color_split [OF assms]
  by (simp add: mesh_cells_iff Arrayi_Zero_def split_stride_eq)

lemma mset_forward_cells:
  "mset (forward_cells mesh) =
     mset (mesh_cells (Arrayi_Zero (length (all_cells mesh))) (all_cells mesh))"
proof -
  let ?grid = "mesh_cells (Arrayi_Zero (length (all_cells mesh))) (all_cells mesh)"
  let ?colors = "mesh_cells (Arrayi_Zero (length (split_stride mesh))) (split_stride mesh)"
  let ?key = "cell_color (split_range mesh) (split_stride mesh)"
  have "forward_cells mesh = concat (map (\<lambda>k. filter (\<lambda>c. ?key c = k) ?grid) ?colors)"
    by (simp add: forward_cells_def split_batches_def color_groups_def color_group_def [abs_def]
        split_range_def)
  then have "mset (forward_cells mesh) = mset (filter (\<lambda>c. ?key c \<in> set ?colors) ?grid)"
    by (simp only: mset_concat_filter_keys [OF distinct_mesh_cells])
  also have "filter (\<lambda>c. ?key c \<in> set ?colors) ?grid = ?grid"
    using cell_color_is_color [of mesh] by (simp add: in_grid_cells)
  finally show ?thesis .
qed

lemma backward_cells_rev: "backward_cells mesh = rev (forward_cells mesh)"
  by (simp add: backward_cells_def forward_cells_def rev_concat)

lemma distinct_forward_cells: "distinct (forward_cells mesh)"
  using mset_eq_imp_distinct_iff [OF mset_forward_cells] distinct_mesh_cells by blast

lemma set_forward_cells: "set (forward_cells mesh) = {c. in_grid (all_cells mesh) c}"
  using mset_eq_setD [OF mset_forward_cells] by (simp add: in_grid_cells)

lemma split_cells_in_grid:
  "c \<in> set (forward_cells mesh) \<Longrightarrow> in_grid (all_cells mesh) c"
  "c \<in> set (backward_cells mesh) \<Longrightarrow> in_grid (all_cells mesh) c"
  by (simp_all add: backward_cells_rev set_forward_cells)

lemma particle_for_split_sequenced:
  "particle_for_split SequencedPolicy cell_schedule mesh f s =
     Inr (fold f (concat (map (cell_index_lists mesh) (forward_cells mesh)) @
                  concat (map (\<lambda>c. rev (cell_index_lists mesh c)) (backward_cells mesh))) s)"
proof -
  have fwd: "mesh_stride_forward_for (split_range mesh) (split_stride mesh) (forward_cell mesh f) s =
      Inr (fold f (concat (map (cell_index_lists mesh) (forward_cells mesh))) s)" for s
    unfolding mesh_stride_forward_for_def
    using for_each_groups [of "forward_cell mesh f" "\<lambda>g. g" "split_batches mesh" s]
    by (simp add: split_batches_def [symmetric] forward_cells_def [symmetric]
        for_each_fold forward_cell_in_grid split_cells_in_grid)
  have bwd: "mesh_stride_backward_for (split_range mesh) (split_stride mesh) (backward_cell mesh f) s =
      Inr (fold f (concat (map (\<lambda>c. rev (cell_index_lists mesh c)) (backward_cells mesh))) s)" for s
    unfolding mesh_stride_backward_for_def
    using for_each_groups [of "backward_cell mesh f" rev "rev (split_batches mesh)" s]
    by (simp add: split_batches_def [symmetric] backward_cells_def [symmetric]
        for_each_fold backward_cell_in_grid split_cells_in_grid)
  show ?thesis
    by (simp add: particle_for_split_def fwd bwd)
qed

lemma particle_for_split_parallel:
  assumes "\<forall>g. set (cell_schedule g) = set g"
  shows "particle_for_split ParallelPolicy cell_schedule mesh f s =
     Inr (fold f
       (concat (map (cell_index_lists mesh) (concat (map cell_schedule (split_batches mesh)))) @
        concat (map (\<lambda>c. rev (cell_index_lists mesh c))
          (concat (map (\<lambda>g. cell_schedule (rev g)) (rev (split_batches mesh)))))) s)"
proof -
  have grid1: "in_grid (all_cells mesh) c"
    if "c \<in> set (concat (map cell_schedule (split_batches mesh)))" for c
  proof -
    from that assms have "c \<in> set (forward_cells mesh)"
      by (auto simp: forward_cells_def)
    then show ?thesis by (rule split_cells_in_grid)
  qed
  have grid2: "in_grid (all_cells mesh) c"
    if "c \<in> set (concat (map (\<lambda>g. cell_schedule (rev g)) (rev (split_batches mesh))))" for c
  proof -
    from that assms have "c \<in> set (forward_cells mesh)"
      by (auto simp: forward_cells_def)
    then show ?thesis by (rule split_cells_in_grid)
  qed
  have fwd: "mesh_stride_forward_parallel_for cell_schedule (split_range mesh) (split_stride mesh)
        (forward_cell mesh f) s =
      Inr (fold f (concat (map (cell_index_lists mesh)
        (concat (map cell_schedule (split_batches mesh))))) s)" for s
    unfolding mesh_stride_forward_parallel_for_def
    using for_each_groups [of "forward_cell mesh f" cell_schedule "split_batches mesh" s]
    by (simp add: split_batches_def [symmetric] for_each_fold forward_cell_in_grid grid1)
  have bwd: "mesh_stride_backward_parallel_for cell_schedule (split_range mesh) (split_stride mesh)
        (backward_cell mesh f) s =
      Inr (fold f (concat (map (\<lambda>c. rev (cell_index_lists mesh c))
        (concat (map (\<lambda>g. cell_schedule (rev g)) (rev (split_batches mesh)))))) s)" for s
    unfolding mesh_stride_backward_parallel_for_def
    using for_each_groups [of "backward_cell mesh f" "\<lambda>g. cell_schedule (rev g)"
        "rev (split_batches mesh)" s]
    by (simp add: split_batches_def [symmetric] for_each_fold backward_cell_in_grid grid2)
  show ?thesis
    by (simp add: particle_for_split_def fwd bwd)
qed

lemma mset_concat_map: "mset (concat (map g xs)) = (\<Sum>x \<in># mset xs. mset (g x))"
  by (induction xs) simp_all

lemma count_list_concat_perm:
  "mset xs = mset ys \<Longrightarrow> count_list (concat (map g xs)) i = count_list (concat (map g ys)) i"
  by (metis count_mset mset_concat_map)

lemma count_list_concat_rev:
  "count_list (concat (map (\<lambda>c. rev (g c)) xs)) i = count_list (concat (map g xs)) i"
  by (induction xs) simp_all

lemma split_batch_is_color_group:
  assumes "g \<in> set (split_batches mesh)" and "c \<in> set g"
  shows "in_grid (all_cells mesh) c"
    and "\<exists>m. \<forall>c' \<in> set g. cell_color (split_range mesh) (split_stride mesh) c' = m"
proof -
  from assms(1) obtain m where g: "g = color_group (split_range mesh) (split_stride mesh) m"
    by (auto simp: split_batches_def color_groups_def)
  with assms(2) have "c \<in> set (mesh_cells (Arrayi_Zero (length (all_cells mesh))) (all_cells mesh))"
    by (simp add: color_group_def split_range_def)
  then show "in_grid (all_cells mesh) c"
    by (simp add: in_grid_cells)
  from g show "\<exists>m. \<forall>c' \<in> set g. cell_color (split_range mesh) (split_stride mesh) c' = m"
    by (auto simp: color_group_def)
qed

lemma levels_loop_upt:
  assumes "unat (total_levels ml) = length (mesh_levels ml)"
    and "unat level \<le> length (mesh_levels ml)"
  shows "levels_loop policy cell_schedule ml f level s =
     for_each (\<lambda>l. particle_for_split policy cell_schedule (mesh_levels ml ! l) f)
       [unat level ..< length (mesh_levels ml)] s"
  using assms
proof (induction policy cell_schedule ml f level s rule: levels_loop.induct)
  case (1 policy cell_schedule ml f level s)
  let ?n = "length (mesh_levels ml)"
  show ?case
  proof (cases "level = total_levels ml")
    case True
    with "1.prems" show ?thesis by simp
  next
    case False
    then have "unat level \<noteq> unat (total_levels ml)"
      by (simp add: word_unat_eq_iff)
    with "1.prems" have less: "unat level < ?n"
      by simp
    have "unat (total_levels ml) < 2 ^ LENGTH(64)"
      by (rule unsigned_less)
    with less "1.prems"(1) have "unat level + unat (1 :: 64 word) < 2 ^ LENGTH(64)"
      by simp
    then have suc: "unat (level + 1) = Suc (unat level)"
      by (simp add: unat_add_lem [THEN iffD1])
    with less have next_le: "unat (level + 1) \<le> ?n"
      by simp
    have upt: "[unat level ..< ?n] = unat level # [unat (level + 1) ..< ?n]"
      using less by (simp add: suc upt_conv_Cons)
    show ?thesis
    proof (cases "particle_for_split policy cell_schedule (mesh_levels ml ! unat level) f s")
      case (Inl e)
      with False less show ?thesis
        by (simp add: upt del: levels_loop.simps add: levels_loop.simps [of _ _ _ _ level])
    next
      case (Inr s')
      from "1.IH" [OF False less Inr "1.prems"(1) next_le] False less Inr show ?thesis
        by (simp add: upt del: levels_loop.simps add: levels_loop.simps [of _ _ _ _ level])
    qed
  qed
qed

subsection \<open>The two sweeps of the sequenced split iteration\<close>

text \<open>
  C3. For every cell linked list and every local dynamics function, the sequenced
  \<open>particle_for_split\<close> returns, and what it does is two sweeps: the function is applied
  along the forward sweep, where the cells come color group by color group and every cell's
  index list is taken in stored order, and then along the backward sweep, where the cells
  come in the reverse order and every cell's index list is taken in reverse. Each sweep
  reaches every cell of the grid exactly once, so the function is applied to every particle
  index exactly twice as often as the index is stored in the cell index lists.
\<close>

theorem sequenced_split_sweeps_twice:
  "particle_for_split SequencedPolicy cell_schedule mesh f s =
     Inr (fold f (concat (map (cell_index_lists mesh) (forward_cells mesh)) @
                  concat (map (\<lambda>c. rev (cell_index_lists mesh c)) (backward_cells mesh))) s) \<and>
   distinct (forward_cells mesh) \<and>
   set (forward_cells mesh) = {c. in_grid (all_cells mesh) c} \<and>
   backward_cells mesh = rev (forward_cells mesh) \<and>
   (\<forall>i. count_list
          (concat (map (cell_index_lists mesh) (forward_cells mesh)) @
           concat (map (\<lambda>c. rev (cell_index_lists mesh c)) (backward_cells mesh))) i =
        2 * count_list (concat (map (cell_index_lists mesh)
          (mesh_cells (Arrayi_Zero (length (all_cells mesh))) (all_cells mesh)))) i)"
proof -
  let ?grid = "mesh_cells (Arrayi_Zero (length (all_cells mesh))) (all_cells mesh)"
  have fwd: "count_list (concat (map (cell_index_lists mesh) (forward_cells mesh))) i =
      count_list (concat (map (cell_index_lists mesh) ?grid)) i" for i
    using mset_forward_cells by (rule count_list_concat_perm)
  have "mset (backward_cells mesh) = mset ?grid"
    by (simp add: backward_cells_rev mset_forward_cells)
  then have "count_list (concat (map (cell_index_lists mesh) (backward_cells mesh))) i =
      count_list (concat (map (cell_index_lists mesh) ?grid)) i" for i
    by (rule count_list_concat_perm)
  then have bwd: "count_list (concat (map (\<lambda>c. rev (cell_index_lists mesh c))
      (backward_cells mesh))) i = count_list (concat (map (cell_index_lists mesh) ?grid)) i" for i
    by (simp add: count_list_concat_rev)
  from fwd bwd show ?thesis
    by (simp add: particle_for_split_sequenced distinct_forward_cells set_forward_cells
        backward_cells_rev)
qed

theorem sequenced_split_sweeps_twice_witness:
  "particle_for_split SequencedPolicy id ex_wide_mesh record_particle [] =
     Inr [0, 4, 3, 1, 2, 2, 1, 3, 4, 0]"
proof -
  have fwd: "forward_cells ex_wide_mesh = [[0, 0], [0, 3], [0, 1], [0, 2]]"
    by code_simp
  have bwd: "backward_cells ex_wide_mesh = [[0, 2], [0, 1], [0, 3], [0, 0]]"
    by code_simp
  from sequenced_split_sweeps_twice [of id ex_wide_mesh record_particle "[]"]
  have "particle_for_split SequencedPolicy id ex_wide_mesh record_particle [] =
     Inr (fold record_particle
       (concat (map (cell_index_lists ex_wide_mesh) (forward_cells ex_wide_mesh)) @
        concat (map (\<lambda>c. rev (cell_index_lists ex_wide_mesh c)) (backward_cells ex_wide_mesh))) [])"
    by blast
  then show ?thesis
    unfolding fwd bwd by (simp add: ex_wide_mesh_def record_particle_def)
qed

subsection \<open>The parallel batches\<close>

text \<open>
  C4, as the claim states it, fails: two cells of one batch can share a coordinate. In the
  grid of 1 by 4 cells the cells (0, 0) and (0, 3) are in the batch of color (0, 0), and
  their difference along the first axis is 0.
\<close>

theorem split_batch_same_axis_counterexample:
  "[0, 0] \<in> set (split_batches ex_wide_mesh ! 0) \<and>
   [0, 3] \<in> set (split_batches ex_wide_mesh ! 0) \<and>
   [0, 0] \<noteq> [0, 3 :: int] \<and>
   \<not> (3 \<le> \<bar>[0, 0] ! 0 - [0, 3 :: int] ! 0\<bar>)"
proof -
  have "split_batches ex_wide_mesh ! 0 = [[0, 0], [0, 3]]"
    by code_simp
  then show ?thesis by simp
qed

text \<open>
  C4, amended. The parallel batches of the split iteration are the color groups of stride
  3. For two distinct cells of one batch the coordinate difference along every axis is a
  multiple of 3, so it is 0 or at least 3 in absolute value, and along at least one axis
  it is at least 3: two cells of a batch are never neighbors of each other.
\<close>

theorem split_batch_cells_apart:
  assumes g: "g \<in> set (split_batches mesh)"
    and c1: "c1 \<in> set g" and c2: "c2 \<in> set g" and ne: "c1 \<noteq> c2"
  shows "length c1 = length (all_cells mesh) \<and> length c2 = length (all_cells mesh) \<and>
     (\<forall>k < length (all_cells mesh).
        (c1 ! k - c2 ! k) mod 3 = 0 \<and> (c1 ! k = c2 ! k \<or> 3 \<le> \<bar>c1 ! k - c2 ! k\<bar>)) \<and>
     (\<exists>k < length (all_cells mesh). 3 \<le> \<bar>c1 ! k - c2 ! k\<bar>)"
proof -
  let ?n = "length (all_cells mesh)"
  let ?color = "cell_color (split_range mesh) (split_stride mesh)"
  from g c1 have grid1: "in_grid (all_cells mesh) c1"
    by (rule split_batch_is_color_group)
  from g c2 have grid2: "in_grid (all_cells mesh) c2"
    by (rule split_batch_is_color_group)
  from grid1 grid2 have len: "length c1 = ?n" "length c2 = ?n"
    by (simp_all add: in_grid_iff)
  from split_batch_is_color_group(2) [OF g c1] c1 c2 have same: "?color c1 = ?color c2"
    by auto
  have axis: "(c1 ! k - c2 ! k) mod 3 = 0 \<and> (c1 ! k = c2 ! k \<or> 3 \<le> \<bar>c1 ! k - c2 ! k\<bar>)"
    if "k < ?n" for k
  proof -
    from same have "?color c1 ! k = ?color c2 ! k"
      by simp
    with that have "c1 ! k mod 3 = c2 ! k mod 3"
      by (simp add: cell_color_split [OF grid1] cell_color_split [OF grid2])
    then show ?thesis
      by presburger
  qed
  from ne len obtain k where "k < ?n" and "c1 ! k \<noteq> c2 ! k"
    by (auto simp: list_eq_iff_nth_eq)
  with axis have "\<exists>k < ?n. 3 \<le> \<bar>c1 ! k - c2 ! k\<bar>"
    by blast
  with len axis show ?thesis
    by blast
qed

theorem split_batch_cells_apart_witness:
  "[[0, 0], [0, 3]] \<in> set (split_batches ex_wide_mesh) \<and>
   [0, 0] \<in> set [[0, 0], [0, 3 :: int]] \<and> [0, 3] \<in> set [[0, 0], [0, 3 :: int]] \<and>
   [0, 0] \<noteq> [0, 3 :: int] \<and>
   (\<exists>k < length (all_cells ex_wide_mesh). 3 \<le> \<bar>[0, 0] ! k - [0, 3 :: int] ! k\<bar>)"
proof -
  have "split_batches ex_wide_mesh = [[[0, 0], [0, 3]], [[0, 1]], [[0, 2]], [], [], [], [], [], []]"
    by code_simp
  then have a: "[[0, 0], [0, 3]] \<in> set (split_batches ex_wide_mesh)"
    by simp
  have b: "[0, 0] \<in> set [[0, 0], [0, 3 :: int]]"
    by simp
  have c: "[0, 3] \<in> set [[0, 0], [0, 3 :: int]]"
    by simp
  have d: "[0, 0] \<noteq> [0, 3 :: int]"
    by simp
  from split_batch_cells_apart [OF a b c d] a b c d show ?thesis
    by blast
qed

subsection \<open>The multilevel cell linked list\<close>

text \<open>
  C5. When \<open>total_levels_\<close> counts the levels, the multilevel \<open>particle_for_split\<close> is
  the sequence of the split iterations of level 0, level 1, and so on up to the last
  level: every level once, in this order, each with the policy and the local dynamics
  function the multilevel call was given, and a level starts on the state the level before
  has left. This holds for both policies.
\<close>

theorem multilevel_split_visits_levels_in_order:
  assumes "unat (total_levels ml) = length (mesh_levels ml)"
  shows "Multilevel_particle_for_split policy cell_schedule ml f s =
     for_each (\<lambda>level. particle_for_split policy cell_schedule (mesh_levels ml ! level) f)
       [0 ..< unat (total_levels ml)] s"
  using levels_loop_upt [OF assms, of 0 policy cell_schedule f s] assms
  by (simp add: Multilevel_particle_for_split_def)

theorem multilevel_split_visits_levels_in_order_witness:
  "unat (total_levels ex_levels) = length (mesh_levels ex_levels) \<and>
   Multilevel_particle_for_split SequencedPolicy id ex_levels record_particle [] =
     for_each (\<lambda>level. particle_for_split SequencedPolicy id (mesh_levels ex_levels ! level)
       record_particle) [0 ..< unat (total_levels ex_levels)] [] \<and>
   [0 ..< unat (total_levels ex_levels)] = [0, 1]"
proof -
  have a: "unat (total_levels ex_levels) = length (mesh_levels ex_levels)"
    by (simp add: ex_levels_def)
  have "[0 ..< unat (total_levels ex_levels)] = [0, 1]"
    by (simp add: ex_levels_def upt_rec)
  with multilevel_split_visits_levels_in_order [OF a, of SequencedPolicy id record_particle "[]"] a
  show ?thesis by simp
qed

section \<open>Execution policies\<close>

text \<open>
  C8, as the claim states it, fails for the neighbor search: \<open>searchNeighborsByParticles\<close>
  has no policy parameter, and hands \<open>ParallelPolicy\<close> to its particle loop. In the
  example the loop is dispatched under the parallel policy and takes the particles in the
  order of the schedule, particle 1 before particle 0.
\<close>

theorem search_dispatch_is_parallel_counterexample:
  "searchNeighborsByParticles ex_mesh id rev ex_pos [0, 1] [[], []] (\<lambda>i. 0) ex_relation =
     Inr ([[0], [1]],
          [Dispatch ParallelPolicy,
           CellAccess 1 [2, 1], RelationCall 1 (1, [2, 1]),
           CellAccess 0 [0, 0], RelationCall 0 (0, [0, 0])]) \<and>
   dispatches [Dispatch ParallelPolicy,
           CellAccess 1 [2, 1], RelationCall 1 (1, [2 :: int, 1]),
           CellAccess 0 [0, 0], RelationCall 0 (0, [0, 0])] \<noteq> [SequencedPolicy]"
  by code_simp

text \<open>
  C8, amended. The split iteration takes an execution policy and runs as the policy says:
  under the sequenced policy the cells come in the fixed order of the forward and the
  backward sweep, whatever the cell schedule; under the parallel policy they come batch by
  batch, inside a batch in the order the schedule picks. The neighbor search takes no
  policy: its particle loop is always dispatched once, under the parallel policy.
\<close>

theorem policy_selects_split_mode_only:
  assumes wf: "well_formed mesh cifp pos loop_range cfg"
    and perm: "mset (schedule loop_range) = mset loop_range"
    and cells: "\<forall>g. set (cell_schedule g) = set g"
  shows "(\<exists>cfg' tr.
       searchNeighborsByParticles mesh cifp schedule pos loop_range cfg depth rel = Inr (cfg', tr) \<and>
       dispatches tr = [ParallelPolicy]) \<and>
     particle_for_split SequencedPolicy cell_schedule split_mesh f s =
       Inr (fold f
         (concat (map (cell_index_lists split_mesh) (forward_cells split_mesh)) @
          concat (map (\<lambda>c. rev (cell_index_lists split_mesh c)) (backward_cells split_mesh))) s) \<and>
     particle_for_split ParallelPolicy cell_schedule split_mesh f s =
       Inr (fold f
         (concat (map (cell_index_lists split_mesh)
            (concat (map cell_schedule (split_batches split_mesh)))) @
          concat (map (\<lambda>c. rev (cell_index_lists split_mesh c))
            (concat (map (\<lambda>g. cell_schedule (rev g)) (rev (split_batches split_mesh)))))) s)"
proof -
  have "dispatches (Dispatch ParallelPolicy #
      concat (map (particle_events mesh cifp pos depth) (schedule loop_range))) = [ParallelPolicy]"
    using dispatches_particle_events [of mesh cifp pos depth "schedule loop_range"]
    by (simp add: dispatches_def)
  moreover have "searchNeighborsByParticles mesh cifp schedule pos loop_range cfg depth rel =
      Inr (fold (\<lambda>i cfg. cfg[i := neighborhood_of mesh cifp pos depth rel i (cfg ! i)])
             (schedule loop_range) cfg,
           Dispatch ParallelPolicy #
             concat (map (particle_events mesh cifp pos depth) (schedule loop_range)))"
    using wf perm by (rule search_result)
  ultimately have "\<exists>cfg' tr.
      searchNeighborsByParticles mesh cifp schedule pos loop_range cfg depth rel = Inr (cfg', tr) \<and>
      dispatches tr = [ParallelPolicy]"
    by blast
  then show ?thesis
    by (simp add: particle_for_split_sequenced particle_for_split_parallel [OF cells])
qed

theorem policy_selects_split_mode_only_witness:
  "well_formed ex_mesh id ex_pos [0, 1] [[], []] \<and>
   mset (rev [0, 1 :: nat]) = mset [0, 1] \<and>
   (\<exists>cfg' tr.
      searchNeighborsByParticles ex_mesh id rev ex_pos [0, 1] [[], []] (\<lambda>i. 0) ex_relation =
        Inr (cfg', tr) \<and>
      dispatches tr = [ParallelPolicy]) \<and>
   particle_for_split SequencedPolicy rev ex_wide_mesh record_particle [] =
     Inr [0, 4, 3, 1, 2, 2, 1, 3, 4, 0] \<and>
   particle_for_split ParallelPolicy rev ex_wide_mesh record_particle [] =
     Inr [3, 0, 4, 1, 2, 2, 1, 4, 0, 3]"
proof -
  have a: "well_formed ex_mesh id ex_pos [0, 1] [[], []]"
    by (simp add: well_formed_def ex_mesh_def ex_pos_def)
  have b: "mset (rev [0, 1 :: nat]) = mset [0, 1]"
    by simp
  have c: "\<forall>g :: Arrayi list. set (rev g) = set g"
    by simp
  have fwd: "forward_cells ex_wide_mesh = [[0, 0], [0, 3], [0, 1], [0, 2]]"
    by code_simp
  have bwd: "backward_cells ex_wide_mesh = [[0, 2], [0, 1], [0, 3], [0, 0]]"
    by code_simp
  have batches: "split_batches ex_wide_mesh =
      [[[0, 0], [0, 3]], [[0, 1]], [[0, 2]], [], [], [], [], [], []]"
    by code_simp
  note sel = policy_selects_split_mode_only [where mesh = ex_mesh and cifp = id and pos = ex_pos
      and loop_range = "[0, 1]" and cfg = "[[], []]" and schedule = rev and cell_schedule = rev
      and depth = "\<lambda>i. 0" and rel = ex_relation and split_mesh = ex_wide_mesh
      and f = record_particle and s = "[]", OF a b c]
  from sel have "\<exists>cfg' tr.
      searchNeighborsByParticles ex_mesh id rev ex_pos [0, 1] [[], []] (\<lambda>i. 0) ex_relation =
        Inr (cfg', tr) \<and>
      dispatches tr = [ParallelPolicy]"
    by blast
  moreover from sel have "particle_for_split SequencedPolicy rev ex_wide_mesh record_particle [] =
      Inr [0, 4, 3, 1, 2, 2, 1, 3, 4, 0]"
    unfolding fwd bwd by (simp add: ex_wide_mesh_def record_particle_def)
  moreover from sel have "particle_for_split ParallelPolicy rev ex_wide_mesh record_particle [] =
      Inr [3, 0, 4, 1, 2, 2, 1, 4, 0, 3]"
    unfolding batches by (simp add: ex_wide_mesh_def record_particle_def)
  ultimately show ?thesis
    using a b by blast
qed

end
